theory Spec2Isabelle
  imports Complex_Main "HOL-Library.Monad_Syntax" "HOL-Library.Product_Lexorder"
    "HOL-Library.Log_Nat"
begin

section \<open>Storage layer: tiles, tile groups, the catalog and the data table\<close>

text \<open>
  The embedding follows \<^verbatim>\<open>src/backend/storage/data_table.cpp\<close>. Object identifiers
  (\<^verbatim>\<open>oid_t\<close>) and counters (\<^verbatim>\<open>size_t\<close>) are natural numbers: every
  value below counts tuples, tile groups or columns that exist in memory, so none reaches
  the width of the machine word. The sentinel \<^verbatim>\<open>INVALID_OID\<close> is \<open>None\<close>.

  A function returns \<open>None\<close> when the call delivers no result: an exception is thrown, an
  assertion fails, a vector or a null pointer is dereferenced out of range (undefined
  behaviour in C++), or the fuel of a loop that may run forever is used up.
\<close>

type_synonym oid_t = nat

record ItemPointer =
  block :: oid_t
  offset :: oid_t

datatype ValueType =
  VALUE_TYPE_INTEGER | VALUE_TYPE_DOUBLE | VALUE_TYPE_VARCHAR | VALUE_TYPE_VARBINARY

datatype Value = NullValue | IntegerValue int | StringValue string

record Column =
  column_type :: ValueType
  allow_null :: bool

type_synonym Schema = "Column list"

type_synonym Tuple = "Value list"

text \<open>
  \<^verbatim>\<open>column_map_type\<close> is \<^verbatim>\<open>std::map<oid_t, std::pair<oid_t, oid_t>>\<close>: an
  association list kept in key order, as the iteration of \<^verbatim>\<open>std::map\<close> visits it.
  \<open>map_put\<close> is \<^verbatim>\<open>m[k] = v\<close>.
\<close>

type_synonym column_map_type = "(oid_t \<times> (oid_t \<times> oid_t)) list"

fun map_put :: "'k::linorder \<Rightarrow> 'v \<Rightarrow> ('k \<times> 'v) list \<Rightarrow> ('k \<times> 'v) list" where
  "map_put k v [] = [(k, v)]"
| "map_put k v ((k', v') # m) =
     (if k < k' then (k, v) # (k', v') # m
      else if k = k' then (k, v) # m
      else (k', v') # map_put k v m)"

definition map_get_or :: "'v \<Rightarrow> ('k \<times> 'v) list \<Rightarrow> 'k \<Rightarrow> 'v" where
  "map_get_or d m k = (case map_of m k of None \<Rightarrow> d | Some v \<Rightarrow> v)"

definition nth_opt :: "'a list \<Rightarrow> nat \<Rightarrow> 'a option" where
  "nth_opt xs i = (if i < length xs then Some (xs ! i) else None)"

subsection \<open>Tile\<close>

text \<open>
  Modelled from the spec: \<^verbatim>\<open>tile.h\<close> is not among the sources. A tile is a 2-D buffer
  of \<open>capacity \<times> column_count\<close> cells with typed \<open>get(row, col)\<close> and
  \<open>set(row, col, value)\<close>; an access outside the buffer delivers no result.
\<close>

record Tile =
  tile_schema :: Schema
  tile_slots :: nat
  tile_data :: "nat \<Rightarrow> nat \<Rightarrow> Value"

definition Tile_new :: "Schema \<Rightarrow> nat \<Rightarrow> Tile" where
  "Tile_new s n = \<lparr>tile_schema = s, tile_slots = n, tile_data = (\<lambda>row col. NullValue)\<rparr>"

definition Tile_GetValue :: "Tile \<Rightarrow> nat \<Rightarrow> nat \<Rightarrow> Value option" where
  "Tile_GetValue t row col =
     (if row < tile_slots t \<and> col < length (tile_schema t)
      then Some (tile_data t row col) else None)"

definition Tile_SetValue :: "Value \<Rightarrow> nat \<Rightarrow> nat \<Rightarrow> Tile \<Rightarrow> Tile option" where
  "Tile_SetValue v row col t =
     (if row < tile_slots t \<and> col < length (tile_schema t)
      then Some (t\<lparr>tile_data := (tile_data t)(row := (tile_data t row)(col := v))\<rparr>)
      else None)"

subsection \<open>Tile group header\<close>

text \<open>
  Modelled from the spec: \<^verbatim>\<open>tile_group_header.h\<close> is not among the sources. The
  header keeps one MVCC record \<open>(txn_id, begin_cid, end_cid)\<close> per slot and the counter
  \<open>next_slot\<close>; \<open>claim_next_slot\<close> is a fetch-and-increment that returns no slot once
  \<open>next_slot = capacity\<close>.
\<close>

record TileGroupHeader =
  num_tuple_slots :: nat
  next_tuple_slot :: nat
  slot_versions :: "nat \<Rightarrow> nat \<times> nat \<times> nat"

definition TileGroupHeader_new :: "nat \<Rightarrow> TileGroupHeader" where
  "TileGroupHeader_new n =
     \<lparr>num_tuple_slots = n, next_tuple_slot = 0, slot_versions = (\<lambda>slot. (0, 0, 0))\<rparr>"

definition GetNextEmptyTupleSlot :: "TileGroupHeader \<Rightarrow> oid_t option \<times> TileGroupHeader" where
  "GetNextEmptyTupleSlot h =
     (if next_tuple_slot h < num_tuple_slots h
      then (Some (next_tuple_slot h), h\<lparr>next_tuple_slot := next_tuple_slot h + 1\<rparr>)
      else (None, h))"

subsection \<open>Tile group\<close>

text \<open>
  The fields are those of \<^verbatim>\<open>class TileGroup\<close> in \<^verbatim>\<open>tile_group.h\<close>. The member
  functions are only declared there.
\<close>

record TileGroup =
  tile_group_id :: oid_t
  tile_schemas :: "Schema list"
  tiles :: "Tile list"
  tile_group_header :: TileGroupHeader
  tg_num_tuple_slots :: oid_t
  column_map :: column_map_type

definition GetAllocatedTupleCount :: "TileGroup \<Rightarrow> oid_t" where
  "GetAllocatedTupleCount tg = tg_num_tuple_slots tg"

definition GetNextTupleSlot :: "TileGroup \<Rightarrow> oid_t" where
  "GetNextTupleSlot tg = next_tuple_slot (tile_group_header tg)"

text \<open>
  Modelled from the spec: \<^verbatim>\<open>TileGroupFactory::GetTileGroup\<close> and the constructor of
  \<^verbatim>\<open>TileGroup\<close> are not among the sources. The tile group is built with its id, its
  column map and its capacity, a fresh header, and one tile per entry of \<open>schemas\<close>.
\<close>

definition TileGroupFactory_GetTileGroup ::
  "oid_t \<Rightarrow> Schema list \<Rightarrow> column_map_type \<Rightarrow> nat \<Rightarrow> TileGroup" where
  "TileGroupFactory_GetTileGroup tgid schemas cm tuple_count =
     \<lparr>tile_group_id = tgid,
      tile_schemas = schemas,
      tiles = map (\<lambda>s. Tile_new s tuple_count) schemas,
      tile_group_header = TileGroupHeader_new tuple_count,
      tg_num_tuple_slots = tuple_count,
      column_map = cm\<rparr>"

text \<open>
  Modelled from the spec: \<open>locate(column)\<close> is a lookup in the column map, \<open>GetTile\<close>
  indexes the tile vector and \<open>GetValue(tuple_id, column_id)\<close> reads the located cell
  (\<^verbatim>\<open>tile_group.cpp\<close> is not among the sources).
\<close>

definition LocateTileAndColumn :: "TileGroup \<Rightarrow> oid_t \<Rightarrow> (oid_t \<times> oid_t) option" where
  "LocateTileAndColumn tg column_offset = map_of (column_map tg) column_offset"

definition GetTile :: "TileGroup \<Rightarrow> oid_t \<Rightarrow> Tile option" where
  "GetTile tg tile_itr = nth_opt (tiles tg) tile_itr"

definition TileGroup_GetValue :: "TileGroup \<Rightarrow> oid_t \<Rightarrow> oid_t \<Rightarrow> Value option" where
  "TileGroup_GetValue tg tuple_id column_id = do {
     (tile_offset, tile_column_offset) \<leftarrow> LocateTileAndColumn tg column_id;
     tile \<leftarrow> GetTile tg tile_offset;
     Tile_GetValue tile tuple_id tile_column_offset
   }"

definition TileGroup_SetValue :: "Value \<Rightarrow> oid_t \<Rightarrow> oid_t \<Rightarrow> TileGroup \<Rightarrow> TileGroup option" where
  "TileGroup_SetValue v tuple_id column_id tg = do {
     (tile_offset, tile_column_offset) \<leftarrow> LocateTileAndColumn tg column_id;
     tile \<leftarrow> GetTile tg tile_offset;
     tile' \<leftarrow> Tile_SetValue v tuple_id tile_column_offset tile;
     Some (tg\<lparr>tiles := (tiles tg)[tile_offset := tile']\<rparr>)
   }"

text \<open>
  Modelled from the spec: \<open>insert_tuple(tuple)\<close> claims a slot in the header; for each
  source column it looks up \<open>(tile_ordinal, col_in_tile)\<close> in the column map and copies the
  value into that tile at the claimed slot. It returns no slot when the tile group is full.
\<close>

fun CopyTuple :: "Tuple \<Rightarrow> oid_t \<Rightarrow> oid_t \<Rightarrow> TileGroup \<Rightarrow> TileGroup option" where
  "CopyTuple [] column_itr tuple_slot_id tg = Some tg"
| "CopyTuple (v # vs) column_itr tuple_slot_id tg = do {
     tg' \<leftarrow> TileGroup_SetValue v tuple_slot_id column_itr tg;
     CopyTuple vs (column_itr + 1) tuple_slot_id tg'
   }"

definition TileGroup_InsertTuple :: "Tuple \<Rightarrow> TileGroup \<Rightarrow> (oid_t option \<times> TileGroup) option" where
  "TileGroup_InsertTuple tuple tg =
     (case GetNextEmptyTupleSlot (tile_group_header tg) of
        (None, h) \<Rightarrow> Some (None, tg\<lparr>tile_group_header := h\<rparr>)
      | (Some tuple_slot_id, h) \<Rightarrow> do {
          tg' \<leftarrow> CopyTuple tuple 0 tuple_slot_id (tg\<lparr>tile_group_header := h\<rparr>);
          Some (Some tuple_slot_id, tg')
        })"

subsection \<open>Double-precision numbers\<close>

text \<open>
  A \<^verbatim>\<open>double\<close> is represented by its value: \<open>Finite q\<close> is the finite double whose value
  is the rational \<open>q\<close> (the two zeros are \<open>Finite 0\<close>), next to the two infinities and
  not-a-number. \<open>to_double q\<close> is the double nearest to \<open>q\<close>, as IEEE 754 binary64
  arithmetic rounds a result: to the nearest multiple of the unit in the last place of
  \<open>q\<close>'s binade (53 significant bits, exponents from \<open>-1074\<close> on), a tie going to the even
  multiple, and to an infinity from \<open>2 ^ 1024\<close> on. \<open>floor_log2 q\<close> is the binary logarithm
  of \<open>q > 0\<close> rounded down, and \<open>pow2 e\<close> is \<open>2\<close> to the power \<open>e\<close>.
\<close>

datatype double = Finite rat | PosInf | NegInf | NaN

definition pow2 :: "int \<Rightarrow> rat" where
  "pow2 e = (if 0 \<le> e then 2 ^ nat e else 1 / 2 ^ nat (- e))"

definition floor_log2 :: "rat \<Rightarrow> int" where
  "floor_log2 q = (if 1 \<le> q then bitlen \<lfloor>q\<rfloor> - 1 else - bitlen (\<lceil>1 / q\<rceil> - 1))"

definition round_half_even :: "rat \<Rightarrow> int" where
  "round_half_even x =
     (let f = \<lfloor>x\<rfloor>; r = x - of_int f in
      if r < 1 / 2 then f else if 1 / 2 < r then f + 1 else if even f then f else f + 1)"

definition to_double :: "rat \<Rightarrow> double" where
  "to_double q =
     (if q = 0 then Finite 0
      else let u = pow2 (max (floor_log2 \<bar>q\<bar> - 52) (- 1074));
               r = of_int (round_half_even (q / u)) * u
           in if pow2 1024 \<le> r then PosInf
              else if r \<le> - pow2 1024 then NegInf
              else Finite r)"

text \<open>
  The comparison \<^verbatim>\<open><\<close> of two doubles: false as soon as one of them is not a number.
\<close>

fun double_less :: "double \<Rightarrow> double \<Rightarrow> bool" where
  "double_less (Finite a) (Finite b) = (a < b)"
| "double_less (Finite a) PosInf = True"
| "double_less NegInf (Finite b) = True"
| "double_less NegInf PosInf = True"
| "double_less x y = False"

subsection \<open>Schema difference of a tile group\<close>

text \<open>
  Modelled from the spec: \<open>schema_difference(target_map) \<rightarrow> f64\<close> is the fraction of
  columns whose \<open>(tile_ordinal, col_in_tile)\<close> differs from \<open>target_map\<close>. The \<^verbatim>\<open>double\<close>
  it returns (\<^verbatim>\<open>tile_group.h\<close>) is the quotient \<open>diff / capacity\<close> of the two counts in
  double arithmetic, that is the double nearest to the fraction (the counts themselves
  are doubles: a column map has far fewer than \<open>2 ^ 53\<close> entries); with no column at all
  the quotient is \<^verbatim>\<open>0.0 / 0\<close>, not a number.
\<close>

definition GetSchemaDifference :: "TileGroup \<Rightarrow> column_map_type \<Rightarrow> double option" where
  "GetSchemaDifference tg new_column_map =
     (let capacity = length (column_map tg) in
      if \<exists>col \<in> set [0..<capacity].
           map_of (column_map tg) col = None \<or> map_of new_column_map col = None
      then None
      else Some (if capacity = 0 then NaN
                 else to_double (of_nat (length (filter
                        (\<lambda>col. map_of (column_map tg) col \<noteq> map_of new_column_map col)
                        [0..<capacity])) / of_nat capacity)))"

subsection \<open>Catalog manager\<close>

text \<open>
  Modelled from the spec: \<^verbatim>\<open>catalog/manager.h\<close> is not among the sources. The catalog
  is a map from tile-group id to (shared) tile group; ids come from a monotonically
  increasing counter; \<open>AddTileGroup\<close> installs or replaces the entry of an id and
  \<open>DropTileGroup\<close> removes it.
\<close>

record Manager =
  oid :: oid_t
  locator :: "oid_t \<rightharpoonup> TileGroup"

definition GetNextOid :: "Manager \<Rightarrow> oid_t \<times> Manager" where
  "GetNextOid m = (oid m + 1, m\<lparr>oid := oid m + 1\<rparr>)"

definition AddTileGroup :: "oid_t \<Rightarrow> TileGroup \<Rightarrow> Manager \<Rightarrow> Manager" where
  "AddTileGroup tgid tg m = m\<lparr>locator := (locator m)(tgid \<mapsto> tg)\<rparr>"

definition DropTileGroup :: "oid_t \<Rightarrow> Manager \<Rightarrow> Manager" where
  "DropTileGroup tgid m = m\<lparr>locator := (locator m)(tgid := None)\<rparr>"

definition Manager_GetTileGroup :: "Manager \<Rightarrow> oid_t \<Rightarrow> TileGroup option" where
  "Manager_GetTileGroup m tgid = locator m tgid"

subsection \<open>Index\<close>

text \<open>
  Modelled from the spec: the index implementations are outside the sources and are
  consumed through \<open>indexed_columns\<close>, \<open>index_type\<close> and
  \<open>insert_entry(key, item_pointer) \<rightarrow> bool\<close>. The index's own \<open>insert_entry\<close> is
  responsible for uniqueness: a primary-key or unique index refuses a key it holds.
\<close>

datatype IndexConstraintType =
  INDEX_CONSTRAINT_TYPE_DEFAULT | INDEX_CONSTRAINT_TYPE_PRIMARY_KEY | INDEX_CONSTRAINT_TYPE_UNIQUE

record Index =
  index_type :: IndexConstraintType
  indexed_columns :: "oid_t list"
  index_entries :: "(Tuple \<times> ItemPointer) list"
  index_number_of_tuples :: nat

definition SetFromTuple :: "Tuple \<Rightarrow> oid_t list \<Rightarrow> Tuple option" where
  "SetFromTuple tuple columns =
     (if \<exists>c \<in> set columns. length tuple \<le> c then None
      else Some (map (\<lambda>c. tuple ! c) columns))"

definition InsertEntry :: "Tuple \<Rightarrow> ItemPointer \<Rightarrow> Index \<Rightarrow> bool \<times> Index" where
  "InsertEntry key location index =
     (if index_type index \<noteq> INDEX_CONSTRAINT_TYPE_DEFAULT \<and> key \<in> fst ` set (index_entries index)
      then (False, index)
      else (True, index\<lparr>index_entries := index_entries index @ [(key, location)]\<rparr>))"

subsection \<open>Data table\<close>

datatype LayoutType = LAYOUT_ROW | LAYOUT_COLUMN | LAYOUT_HYBRID

text \<open>
  The members of \<^verbatim>\<open>DataTable\<close> that the functions below read or write. The
  approximate counter \<^verbatim>\<open>number_of_tuples\<close> (a \<^verbatim>\<open>float\<close>) and the flag
  \<^verbatim>\<open>dirty\<close> take no part in any of them and are left out.
\<close>

record DataTable =
  schema :: Schema
  table_name :: string
  adapt_table :: bool
  tuples_per_tilegroup :: nat
  tile_groups :: "oid_t list"
  indexes :: "Index list"
  tuple_count_exact :: nat
  default_partition :: column_map_type
  inline_column_map :: "(oid_t \<times> oid_t) list"
  sample_column_mask :: "bool list"
  sample_column_map :: column_map_type
  sample_schema_list :: "Schema list"
  samples_for_optimizer :: "ItemPointer list"
  sampled_tile_group_id :: "oid_t option"
  cardinality_map :: "(oid_t \<times> nat) list"

text \<open>
  The state a member function of \<^verbatim>\<open>DataTable\<close> runs in: the table, the catalog
  singleton \<^verbatim>\<open>catalog::Manager::GetInstance()\<close> and the global
  \<^verbatim>\<open>peloton_layout_mode\<close>. \<open>hyadapt_column_map\<close> stands for the map that the
  \<^verbatim>\<open>HYADAPTTABLE\<close> branch of \<^verbatim>\<open>GetStaticColumnMap\<close> builds from the benchmark's
  globals (\<^verbatim>\<open>peloton_fsm\<close>, \<^verbatim>\<open>peloton_num_groups\<close>, \<^verbatim>\<open>peloton_projectivity\<close>,
  \<^verbatim>\<open>hyadapt_column_ids\<close>).
\<close>

record world =
  manager :: Manager
  table :: DataTable
  peloton_layout_mode :: LayoutType
  hyadapt_column_map :: column_map_type

definition GetTileGroupCount :: "world \<Rightarrow> nat" where
  "GetTileGroupCount w = length (tile_groups (table w))"

definition GetTileGroupById :: "world \<Rightarrow> oid_t \<Rightarrow> TileGroup option" where
  "GetTileGroupById w tgid = Manager_GetTileGroup (manager w) tgid"

definition GetTileGroup :: "world \<Rightarrow> oid_t \<Rightarrow> TileGroup option" where
  "GetTileGroup w tile_group_offset = do {
     tgid \<leftarrow> nth_opt (tile_groups (table w)) tile_group_offset;
     GetTileGroupById w tgid
   }"

definition CheckNulls :: "DataTable \<Rightarrow> Tuple \<Rightarrow> bool option" where
  "CheckNulls t tuple =
     (if length (schema t) \<noteq> length tuple then None
      else Some (\<not> (\<exists>column_itr \<in> set [0..<length (schema t)].
                      tuple ! column_itr = NullValue \<and> \<not> allow_null (schema t ! column_itr))))"

definition CheckConstraints :: "DataTable \<Rightarrow> Tuple \<Rightarrow> bool option" where
  "CheckConstraints t tuple = do {
     ok \<leftarrow> CheckNulls t tuple;
     if ok = False then None else Some True
   }"

definition GetStaticColumnMap :: "world \<Rightarrow> string \<Rightarrow> oid_t \<Rightarrow> column_map_type" where
  "GetStaticColumnMap w name column_count =
     (if name = ''HYADAPTTABLE'' then hyadapt_column_map w
      else if name = ''USERTABLE'' then
        foldl (\<lambda>m column_id. map_put column_id (1, column_id - 1) m)
          (map_put 0 (0, 0) []) [1..<column_count]
      else map (\<lambda>column_id. (column_id, (0, column_id))) [0..<column_count])"

definition GetTileGroupLayout :: "world \<Rightarrow> LayoutType \<Rightarrow> column_map_type" where
  "GetTileGroupLayout w layout_type =
     (let col_count = length (schema (table w));
          layout_type = (if adapt_table (table w) = False then LAYOUT_ROW else layout_type)
      in case layout_type of
           LAYOUT_ROW \<Rightarrow> map (\<lambda>col_itr. (col_itr, (0, col_itr))) [0..<col_count]
         | LAYOUT_COLUMN \<Rightarrow> map (\<lambda>col_itr. (col_itr, (col_itr, 0))) [0..<col_count]
         | LAYOUT_HYBRID \<Rightarrow>
             if col_count < 10
             then map (\<lambda>col_itr. (col_itr, (0, col_itr))) [0..<col_count]
             else GetStaticColumnMap w (table_name (table w)) col_count)"

text \<open>
  \<^verbatim>\<open>GetTileGroupWithLayout\<close>: \<open>tile_column_map\<close> is keyed by
  \<open>(partition, column in partition)\<close>; \<open>tile_schemas\<close> collects, partition by partition,
  the columns in that order; the schema list has one schema per partition.
\<close>

fun push_schemas :: "Schema \<Rightarrow> ((oid_t \<times> oid_t) \<times> oid_t) list \<Rightarrow> (oid_t \<times> Column list) list
    \<Rightarrow> (oid_t \<times> Column list) list option" where
  "push_schemas s [] acc = Some acc"
| "push_schemas s (((tile, col), column_id) # rest) acc = do {
     column \<leftarrow> nth_opt s column_id;
     push_schemas s rest (map_put tile (map_get_or [] acc tile @ [column]) acc)
   }"

definition GetTileGroupWithLayout :: "column_map_type \<Rightarrow> world \<Rightarrow> (TileGroup \<times> world) option" where
  "GetTileGroupWithLayout partitioning w =
     (let (tgid, m) = GetNextOid (manager w);
          tile_column_map = foldl (\<lambda>m entry. map_put (snd entry) (fst entry) m) [] partitioning
      in do {
        schema_list \<leftarrow> push_schemas (schema (table w)) tile_column_map [];
        Some (TileGroupFactory_GetTileGroup tgid (map snd schema_list) partitioning
                (tuples_per_tilegroup (table w)),
              w\<lparr>manager := m\<rparr>)
      })"

definition AddDefaultTileGroup :: "world \<Rightarrow> (oid_t option \<times> world) option" where
  "AddDefaultTileGroup w = do {
     (tile_group, w1) \<leftarrow> GetTileGroupWithLayout (GetTileGroupLayout w (peloton_layout_mode w)) w;
     let tgid = tile_group_id tile_group;
     let added = w1\<lparr>table := (table w1)\<lparr>tile_groups := tile_groups (table w1) @ [tgid]\<rparr>,
                    manager := AddTileGroup tgid tile_group (manager w1)\<rparr>;
     if tile_groups (table w1) = [] then Some (Some tgid, added)
     else do {
       last_tile_group \<leftarrow> GetTileGroup w1 (GetTileGroupCount w1 - 1);
       if GetNextTupleSlot last_tile_group < GetAllocatedTupleCount last_tile_group
       then Some (None, w1)
       else Some (Some tgid, added)
     }
   }"

text \<open>
  \<^verbatim>\<open>GetTupleSlot\<close>: the loop \<^verbatim>\<open>while (tuple_slot == INVALID_OID)\<close> runs on fuel,
  one unit per iteration.
\<close>

fun GetTupleSlot_loop :: "nat \<Rightarrow> Tuple \<Rightarrow> world \<Rightarrow> (ItemPointer \<times> world) option" where
  "GetTupleSlot_loop 0 tuple w = None"
| "GetTupleSlot_loop (Suc fuel) tuple w =
     (if GetTileGroupCount w = 0 then None
      else do {
        let tile_group_offset = GetTileGroupCount w - 1;
        tile_group \<leftarrow> GetTileGroup w tile_group_offset;
        (tuple_slot, tile_group') \<leftarrow> TileGroup_InsertTuple tuple tile_group;
        let w1 = w\<lparr>manager := AddTileGroup (tile_group_id tile_group) tile_group' (manager w)\<rparr>;
        case tuple_slot of
          None \<Rightarrow> do { (_, w2) \<leftarrow> AddDefaultTileGroup w1; GetTupleSlot_loop fuel tuple w2 }
        | Some slot \<Rightarrow> Some (\<lparr>block = tile_group_id tile_group', offset = slot\<rparr>, w1)
      })"

definition GetTupleSlot :: "nat \<Rightarrow> Tuple \<Rightarrow> bool \<Rightarrow> world \<Rightarrow> (ItemPointer option \<times> world) option" where
  "GetTupleSlot fuel tuple check_constraint w = do {
     ok \<leftarrow> (if check_constraint then CheckConstraints (table w) tuple else Some True);
     if ok = False then Some (None, w)
     else do {
       (location, w') \<leftarrow> GetTupleSlot_loop fuel tuple w;
       Some (Some location, w')
     }
   }"

fun InsertInIndexes_loop :: "Tuple \<Rightarrow> ItemPointer \<Rightarrow> Index list \<Rightarrow> Index list option" where
  "InsertInIndexes_loop tuple location [] = Some []"
| "InsertInIndexes_loop tuple location (index # rest) = do {
     key \<leftarrow> SetFromTuple tuple (indexed_columns index);
     let (status, index') = InsertEntry key location index;
     if status then map_option (Cons index') (InsertInIndexes_loop tuple location rest) else None
   }"

text \<open>
  \<^verbatim>\<open>InsertInIndexes\<close> walks the indexes from the last to the first; part (A) only
  builds keys; part (B) inserts and asserts the status.
\<close>

definition InsertInIndexes :: "Tuple \<Rightarrow> ItemPointer \<Rightarrow> world \<Rightarrow> (bool \<times> world) option" where
  "InsertInIndexes tuple location w = do {
     _ \<leftarrow> those (map (\<lambda>index. SetFromTuple tuple (indexed_columns index))
                    (rev (indexes (table w))));
     indexes' \<leftarrow> InsertInIndexes_loop tuple location (rev (indexes (table w)));
     Some (True, w\<lparr>table := (table w)\<lparr>indexes := rev indexes'\<rparr>\<rparr>)
   }"

definition InsertTuple :: "nat \<Rightarrow> Tuple \<Rightarrow> world \<Rightarrow> (ItemPointer option \<times> world) option" where
  "InsertTuple fuel tuple w = do {
     (location, w1) \<leftarrow> GetTupleSlot fuel tuple True w;
     case location of
       None \<Rightarrow> Some (None, w1)
     | Some loc \<Rightarrow> do {
         (ok, w2) \<leftarrow> InsertInIndexes tuple loc w1;
         if ok = False then Some (None, w2)
         else Some (Some loc,
           w2\<lparr>table := (table w2)
             \<lparr>tuple_count_exact := tuple_count_exact (table w2) + 1,
              indexes := map (\<lambda>index. index\<lparr>index_number_of_tuples :=
                                index_number_of_tuples index + 1\<rparr>) (indexes (table w2))\<rparr>\<rparr>)
       }
   }"

text \<open>
  The constructor: the default partition is the row layout, the inlined columns
  (everything but \<^verbatim>\<open>VARCHAR\<close> and \<^verbatim>\<open>VARBINARY\<close>) are numbered for the sample,
  \<^verbatim>\<open>BuildSampleSchema\<close> gives every sampled column a tile of its own, and the first
  tile group is added.
\<close>

fun inline_columns :: "Schema \<Rightarrow> oid_t \<Rightarrow> oid_t \<Rightarrow> (oid_t \<times> oid_t) list" where
  "inline_columns [] col_itr sample_inline_column_it = []"
| "inline_columns (c # cs) col_itr sample_inline_column_it =
     (if column_type c \<noteq> VALUE_TYPE_VARCHAR \<and> column_type c \<noteq> VALUE_TYPE_VARBINARY
      then (col_itr, sample_inline_column_it) #
             inline_columns cs (col_itr + 1) (sample_inline_column_it + 1)
      else inline_columns cs (col_itr + 1) sample_inline_column_it)"

definition DataTable_new ::
  "Schema \<Rightarrow> string \<Rightarrow> nat \<Rightarrow> bool \<Rightarrow> Manager \<Rightarrow> LayoutType \<Rightarrow> column_map_type \<Rightarrow> world option" where
  "DataTable_new s name per_tilegroup adapt m mode hyadapt =
     (let inl = inline_columns s 0 0;
          t = \<lparr>schema = s, table_name = name, adapt_table = adapt,
               tuples_per_tilegroup = per_tilegroup, tile_groups = [], indexes = [],
               tuple_count_exact = 0,
               default_partition = map (\<lambda>col_itr. (col_itr, (0, col_itr))) [0..<length s],
               inline_column_map = inl,
               sample_column_mask = map (\<lambda>c. column_type c \<noteq> VALUE_TYPE_VARCHAR \<and>
                                            column_type c \<noteq> VALUE_TYPE_VARBINARY) s,
               sample_column_map = foldl (\<lambda>cm item. map_put (snd item) (snd item, 0) cm) [] inl,
               sample_schema_list = map (\<lambda>item. [s ! fst item]) inl,
               samples_for_optimizer = [], sampled_tile_group_id = None,
               cardinality_map = []\<rparr>
      in map_option snd (AddDefaultTileGroup
           \<lparr>manager = m, table = t, peloton_layout_mode = mode, hyadapt_column_map = hyadapt\<rparr>))"

definition AddIndex :: "Index \<Rightarrow> world \<Rightarrow> world" where
  "AddIndex index w = w\<lparr>table := (table w)\<lparr>indexes := indexes (table w) @ [index]\<rparr>\<rparr>"

subsection \<open>Sequences of insertions and the counters they maintain\<close>

text \<open>
  A sequence of successful \<^verbatim>\<open>InsertTuple\<close> calls: the run stops without a result at
  the first call that returns no location.
\<close>

fun insert_tuples :: "nat \<Rightarrow> Tuple list \<Rightarrow> world \<Rightarrow> world option" where
  "insert_tuples fuel [] w = Some w"
| "insert_tuples fuel (tuple # rest) w = do {
     (location, w') \<leftarrow> InsertTuple fuel tuple w;
     case location of None \<Rightarrow> None | Some _ \<Rightarrow> insert_tuples fuel rest w'
   }"

text \<open>The \<open>next_slot\<close> counter of each tile group of the table, in table order.\<close>

definition next_slots :: "world \<Rightarrow> nat list" where
  "next_slots w = map (\<lambda>tgid. case locator (manager w) tgid of
                                None \<Rightarrow> 0 | Some tg \<Rightarrow> GetNextTupleSlot tg)
                      (tile_groups (table w))"

text \<open>
  The invariant of the insertion path: the table's tile groups are registered in the
  catalog under distinct ids that the oid counter has passed, each with the table's
  capacity; every tile group but the last is full; the counters sum to the tuple count;
  and the last tile group is empty only when it is the first.
\<close>

definition registered_at :: "world \<Rightarrow> oid_t \<Rightarrow> bool" where
  "registered_at w tgid \<longleftrightarrow> tgid \<le> oid (manager w) \<and>
        (\<exists>tg. locator (manager w) tgid = Some tg \<and> tile_group_id tg = tgid \<and>
              num_tuple_slots (tile_group_header tg) = tuples_per_tilegroup (table w) \<and>
              tg_num_tuple_slots tg = tuples_per_tilegroup (table w) \<and>
              next_tuple_slot (tile_group_header tg) \<le> tuples_per_tilegroup (table w))"

definition registered :: "world \<Rightarrow> bool" where
  "registered w \<longleftrightarrow>
     distinct (tile_groups (table w)) \<and>
     (\<forall>tgid \<in> set (tile_groups (table w)). registered_at w tgid)"

definition filled :: "world \<Rightarrow> bool" where
  "filled w \<longleftrightarrow> registered w \<and> tile_groups (table w) \<noteq> [] \<and>
     (\<forall>n \<in> set (butlast (next_slots w)). n = tuples_per_tilegroup (table w))"

definition counted :: "world \<Rightarrow> bool" where
  "counted w \<longleftrightarrow> filled w \<and> sum_list (next_slots w) = tuple_count_exact (table w) \<and>
     (length (tile_groups (table w)) = 1 \<or> 1 \<le> last (next_slots w))"

text \<open>
  Scenario S1: two tuples per tile group and the rows \<open>(1, a), (2, b), (3, c)\<close>.
\<close>

definition scenario_schema :: Schema where
  "scenario_schema = [\<lparr>column_type = VALUE_TYPE_INTEGER, allow_null = False\<rparr>,
                      \<lparr>column_type = VALUE_TYPE_VARCHAR, allow_null = True\<rparr>]"

definition scenario_rows :: "Tuple list" where
  "scenario_rows = [[IntegerValue 1, StringValue ''a''], [IntegerValue 2, StringValue ''b''],
                    [IntegerValue 3, StringValue ''c'']]"

definition empty_catalog :: Manager where
  "empty_catalog = \<lparr>oid = 0, locator = Map.empty\<rparr>"

subsection \<open>Layout transformation\<close>

text \<open>
  \<^verbatim>\<open>TransformTileGroupSchema\<close>: for every entry of the new column map, the column's
  description is fetched from the original tile's schema and stored under
  \<open>schemas[new_tile][new_tile_column]\<close>; the new schema list has one schema per tile key,
  its columns in key order.
\<close>

fun transform_schemas :: "TileGroup \<Rightarrow> column_map_type \<Rightarrow> (oid_t \<times> (oid_t \<times> Column) list) list
    \<Rightarrow> (oid_t \<times> (oid_t \<times> Column) list) list option" where
  "transform_schemas tg [] schemas = Some schemas"
| "transform_schemas tg ((column_offset, (new_tile_offset, new_tile_column_offset)) # rest) schemas = do {
     (orig_tile_offset, orig_tile_column_offset) \<leftarrow> LocateTileAndColumn tg column_offset;
     orig_schema \<leftarrow> nth_opt (tile_schemas tg) orig_tile_offset;
     column_info \<leftarrow> nth_opt orig_schema orig_tile_column_offset;
     transform_schemas tg rest
       (map_put new_tile_offset
          (map_put new_tile_column_offset column_info (map_get_or [] schemas new_tile_offset))
          schemas)
   }"

definition TransformTileGroupSchema :: "TileGroup \<Rightarrow> column_map_type \<Rightarrow> Schema list option" where
  "TransformTileGroupSchema tg cm =
     map_option (map (\<lambda>schemas_tile_entry. map snd (snd schemas_tile_entry)))
       (transform_schemas tg cm [])"

text \<open>
  \<^verbatim>\<open>SetTransformedTileGroup\<close>: column by column, every allocated row is read from the
  original tile and written to the new tile; then the header is copied.
\<close>

fun copy_rows :: "Tile \<Rightarrow> oid_t \<Rightarrow> oid_t \<Rightarrow> oid_t list \<Rightarrow> Tile \<Rightarrow> Tile option" where
  "copy_rows orig_tile orig_tile_column_offset new_tile_column_offset [] new_tile = Some new_tile"
| "copy_rows orig_tile orig_tile_column_offset new_tile_column_offset (tuple_itr # rest) new_tile = do {
     val \<leftarrow> Tile_GetValue orig_tile tuple_itr orig_tile_column_offset;
     new_tile' \<leftarrow> Tile_SetValue val tuple_itr new_tile_column_offset new_tile;
     copy_rows orig_tile orig_tile_column_offset new_tile_column_offset rest new_tile'
   }"

definition copy_column :: "TileGroup \<Rightarrow> oid_t \<Rightarrow> oid_t \<Rightarrow> TileGroup \<Rightarrow> TileGroup option" where
  "copy_column orig_tile_group tuple_count column_itr new_tile_group = do {
     (orig_tile_offset, orig_tile_column_offset) \<leftarrow> LocateTileAndColumn orig_tile_group column_itr;
     (new_tile_offset, new_tile_column_offset) \<leftarrow> LocateTileAndColumn new_tile_group column_itr;
     orig_tile \<leftarrow> GetTile orig_tile_group orig_tile_offset;
     new_tile \<leftarrow> GetTile new_tile_group new_tile_offset;
     new_tile' \<leftarrow> copy_rows orig_tile orig_tile_column_offset new_tile_column_offset
                   [0..<tuple_count] new_tile;
     Some (new_tile_group\<lparr>tiles := (tiles new_tile_group)[new_tile_offset := new_tile']\<rparr>)
   }"

fun copy_columns :: "TileGroup \<Rightarrow> oid_t \<Rightarrow> oid_t list \<Rightarrow> TileGroup \<Rightarrow> TileGroup option" where
  "copy_columns orig_tile_group tuple_count [] new_tile_group = Some new_tile_group"
| "copy_columns orig_tile_group tuple_count (column_itr # rest) new_tile_group = do {
     new_tile_group' \<leftarrow> copy_column orig_tile_group tuple_count column_itr new_tile_group;
     copy_columns orig_tile_group tuple_count rest new_tile_group'
   }"

definition SetTransformedTileGroup :: "TileGroup \<Rightarrow> TileGroup \<Rightarrow> TileGroup option" where
  "SetTransformedTileGroup orig_tile_group new_tile_group =
     (if length (column_map new_tile_group) \<noteq> length (column_map orig_tile_group) then None
      else do {
        new_tile_group' \<leftarrow> copy_columns orig_tile_group (GetAllocatedTupleCount orig_tile_group)
                             [0..<length (column_map new_tile_group)] new_tile_group;
        Some (new_tile_group'\<lparr>tile_group_header := tile_group_header orig_tile_group\<rparr>)
      })"

text \<open>
  \<^verbatim>\<open>DataTable::TransformTileGroup\<close>. The result is the pointer it returns
  (\<open>None\<close> for \<^verbatim>\<open>nullptr\<close>) and the state it leaves. The test \<^verbatim>\<open>diff < theta\<close>
  compares two doubles.
\<close>

definition TransformTileGroup :: "oid_t \<Rightarrow> double \<Rightarrow> world \<Rightarrow> (TileGroup option \<times> world) option" where
  "TransformTileGroup tile_group_offset theta w =
     (if tile_group_offset \<ge> length (tile_groups (table w)) then Some (None, w)
      else do {
        let tgid = tile_groups (table w) ! tile_group_offset;
        tile_group \<leftarrow> Manager_GetTileGroup (manager w) tgid;
        diff \<leftarrow> GetSchemaDifference tile_group (default_partition (table w));
        if double_less diff theta then Some (None, w)
        else do {
          new_schema \<leftarrow> TransformTileGroupSchema tile_group (default_partition (table w));
          let new_tile_group = TileGroupFactory_GetTileGroup (tile_group_id tile_group) new_schema
                (default_partition (table w)) (GetAllocatedTupleCount tile_group);
          new_tile_group' \<leftarrow> SetTransformedTileGroup tile_group new_tile_group;
          Some (Some new_tile_group', w\<lparr>manager := AddTileGroup tgid new_tile_group' (manager w)\<rparr>)
        }
      })"

subsection \<open>Sampling rows for the optimizer\<close>

text \<open>
  \<^verbatim>\<open>SampleRows\<close>. The transaction manager's \<^verbatim>\<open>IsVisible(header, tuple_id)\<close> is
  the parameter \<open>IsVisible\<close>; \<open>distribution\<close> gives the number drawn by each call of
  \<^verbatim>\<open>distribution(generator)\<close>, counted from 0; \<^verbatim>\<open>std::set<oid_t>\<close> is an
  increasing list without repetition. A division by a zero
  \<^verbatim>\<open>tuples_per_tilegroup\<close> delivers no result.

  The inner loop draws at most \<open>sample_size\<close> numbers and leaves as soon as the set is
  large enough; the outer loop runs while the set is too small and fewer than 10 rounds
  were made (\<open>rounds\<close> is \<open>10 - iter_count\<close>).
\<close>

fun sample_round :: "(TileGroupHeader \<Rightarrow> oid_t \<Rightarrow> bool) \<Rightarrow> (nat \<Rightarrow> oid_t) \<Rightarrow> world \<Rightarrow> nat \<Rightarrow>
    nat \<Rightarrow> nat \<Rightarrow> oid_t list \<Rightarrow> (oid_t list \<times> nat) option" where
  "sample_round IsVisible distribution w sample_size 0 drawn row_id_set = Some (row_id_set, drawn)"
| "sample_round IsVisible distribution w sample_size (Suc remaining) drawn row_id_set =
     (if tuples_per_tilegroup (table w) = 0 then None
      else do {
        let random_row_id = distribution drawn;
        let tile_group_offset = random_row_id div tuples_per_tilegroup (table w);
        tile_group_p \<leftarrow> GetTileGroup w tile_group_offset;
        let header_p = tile_group_header tile_group_p;
        let row_id_set' = (if IsVisible header_p random_row_id
                           then insort_insert random_row_id row_id_set else row_id_set);
        if length row_id_set' \<ge> sample_size then Some (row_id_set', drawn + 1)
        else sample_round IsVisible distribution w sample_size remaining (drawn + 1) row_id_set'
      })"

fun sample_rounds :: "(TileGroupHeader \<Rightarrow> oid_t \<Rightarrow> bool) \<Rightarrow> (nat \<Rightarrow> oid_t) \<Rightarrow> world \<Rightarrow> nat \<Rightarrow>
    nat \<Rightarrow> nat \<Rightarrow> oid_t list \<Rightarrow> oid_t list option" where
  "sample_rounds IsVisible distribution w sample_size 0 drawn row_id_set = Some row_id_set"
| "sample_rounds IsVisible distribution w sample_size (Suc rounds) drawn row_id_set =
     (if length row_id_set < sample_size then do {
        (row_id_set', drawn') \<leftarrow>
          sample_round IsVisible distribution w sample_size sample_size drawn row_id_set;
        sample_rounds IsVisible distribution w sample_size rounds drawn' row_id_set'
      } else Some row_id_set)"

definition SampleRows :: "(TileGroupHeader \<Rightarrow> oid_t \<Rightarrow> bool) \<Rightarrow> (nat \<Rightarrow> oid_t) \<Rightarrow> nat \<Rightarrow> world \<Rightarrow>
    (nat \<times> world) option" where
  "SampleRows IsVisible distribution sample_size w =
     (let t1 = (if length (samples_for_optimizer (table w)) \<noteq> 0
                then (table w)\<lparr>samples_for_optimizer := []\<rparr> else table w);
          m1 = (case sampled_tile_group_id t1 of
                  None \<Rightarrow> manager w
                | Some tgid \<Rightarrow> DropTileGroup tgid (manager w));
          t2 = (if length (cardinality_map t1) \<noteq> 0 then t1\<lparr>cardinality_map := []\<rparr> else t1);
          w1 = w\<lparr>manager := m1, table := t2\<rparr>;
          total_tuple_number = tuple_count_exact t2
      in do {
        row_id_set \<leftarrow>
          (if sample_size \<ge> total_tuple_number then Some [0..<total_tuple_number]
           else sample_rounds IsVisible distribution w1 sample_size 10 0 []);
        if row_id_set \<noteq> [] \<and> tuples_per_tilegroup t2 = 0 then None
        else Some (length row_id_set,
          w1\<lparr>table := t2\<lparr>samples_for_optimizer := samples_for_optimizer t2 @
            map (\<lambda>row_id. \<lparr>block = row_id div tuples_per_tilegroup t2,
                            offset = row_id mod tuples_per_tilegroup t2\<rparr>) row_id_set\<rparr>\<rparr>)
      })"

definition GetSampleCardinality :: "world \<Rightarrow> oid_t \<Rightarrow> nat" where
  "GetSampleCardinality w sample_column_id =
     (case map_of (cardinality_map (table w)) sample_column_id of None \<Rightarrow> 0 | Some n \<Rightarrow> n)"

definition GetTableCardinality :: "world \<Rightarrow> oid_t \<Rightarrow> nat" where
  "GetTableCardinality w table_column_id =
     (case map_of (inline_column_map (table w)) table_column_id of
        None \<Rightarrow> 0
      | Some sample_column_id \<Rightarrow> GetSampleCardinality w sample_column_id)"

text \<open>
  Scenario S2: four integer columns in row layout, five rows \<open>(10 + i, 20 + i, 30 + i, 40 + i)\<close>,
  and the default partition \<open>{c0 \<rightarrow> (0, 0), c1 \<rightarrow> (0, 1), c2 \<rightarrow> (1, 0), c3 \<rightarrow> (1, 1)}\<close>
  installed as \<^verbatim>\<open>UpdateDefaultPartition\<close> would.
\<close>

definition layout_schema :: Schema where
  "layout_schema = replicate 4 \<lparr>column_type = VALUE_TYPE_INTEGER, allow_null = False\<rparr>"

definition layout_rows :: "Tuple list" where
  "layout_rows = map (\<lambda>i. [IntegerValue (10 + i), IntegerValue (20 + i), IntegerValue (30 + i),
                            IntegerValue (40 + i)]) [0, 1, 2, 3, 4]"

definition layout_partition :: column_map_type where
  "layout_partition = [(0, (0, 0)), (1, (0, 1)), (2, (1, 0)), (3, (1, 1))]"

definition layout_world :: "world option" where
  "layout_world = do {
     w0 \<leftarrow> DataTable_new layout_schema ''T'' 5 False empty_catalog LAYOUT_ROW [];
     w \<leftarrow> insert_tuples 2 layout_rows w0;
     Some (w\<lparr>table := (table w)\<lparr>default_partition := layout_partition\<rparr>\<rparr>)
   }"

text \<open>
  Two integer columns in column layout (one tile each) and a default partition that swaps
  the two tiles: every column changes its tile.
\<close>

definition swapped_partition :: column_map_type where
  "swapped_partition = [(0, (1, 0)), (1, (0, 0))]"

definition swapped_world :: "world option" where
  "swapped_world = do {
     w0 \<leftarrow> DataTable_new (replicate 2 \<lparr>column_type = VALUE_TYPE_INTEGER, allow_null = False\<rparr>)
             ''T'' 5 True empty_catalog LAYOUT_COLUMN [];
     w \<leftarrow> insert_tuples 2 [[IntegerValue 1, IntegerValue 2]] w0;
     Some (w\<lparr>table := (table w)\<lparr>default_partition := swapped_partition\<rparr>\<rparr>)
   }"

text \<open>
  Four rows in two tile groups of two slots each. A slot is visible when it has been
  claimed in the header it is asked about.
\<close>

definition sample_world :: "world option" where
  "sample_world = do {
     w0 \<leftarrow> DataTable_new scenario_schema ''T'' 2 False empty_catalog LAYOUT_ROW [];
     insert_tuples 2 (scenario_rows @ [[IntegerValue 4, StringValue ''d'']]) w0
   }"

definition claimed_slot :: "TileGroupHeader \<Rightarrow> oid_t \<Rightarrow> bool" where
  "claimed_slot header_p tuple_id \<longleftrightarrow> tuple_id < next_tuple_slot header_p"

definition always_row_three :: "nat \<Rightarrow> oid_t" where
  "always_row_three drawn = 3"

definition visible_at :: "oid_t \<Rightarrow> TileGroupHeader \<Rightarrow> oid_t \<Rightarrow> bool" where
  "visible_at n header_p tuple_id \<longleftrightarrow> tuple_id = n"

definition all_visible :: "TileGroupHeader \<Rightarrow> oid_t \<Rightarrow> bool" where
  "all_visible header_p tuple_id \<longleftrightarrow> True"

text \<open>
  \<^verbatim>\<open>MaterializeSample\<close> and the cardinality functions. The sample tile group has one
  tile per sampled column and as many slots as there are sampled pointers;
  \<^verbatim>\<open>FillSampleTileGroup\<close> claims a slot of it for every pointer and copies the inlined
  columns; \<^verbatim>\<open>ComputeSampleCardinality\<close> counts the distinct values of a sample column
  (the size of the \<^verbatim>\<open>unordered_set\<close>).
\<close>

definition GetOptimizerSampleSize :: "world \<Rightarrow> nat" where
  "GetOptimizerSampleSize w = length (samples_for_optimizer (table w))"

definition GetSampleTileGroup :: "world \<Rightarrow> TileGroup option" where
  "GetSampleTileGroup w = do {
     tgid \<leftarrow> sampled_tile_group_id (table w);
     Manager_GetTileGroup (manager w) tgid
   }"

definition BuildSampleTileGroup :: "world \<Rightarrow> TileGroup option \<times> world" where
  "BuildSampleTileGroup w =
     (if GetOptimizerSampleSize w = 0 then (None, w)
      else let (tgid, m) = GetNextOid (manager w)
           in (Some (TileGroupFactory_GetTileGroup tgid (sample_schema_list (table w))
                       (sample_column_map (table w)) (GetOptimizerSampleSize w)),
               w\<lparr>manager := m, table := (table w)\<lparr>sampled_tile_group_id := Some tgid\<rparr>\<rparr>))"

fun fill_columns :: "TileGroup \<Rightarrow> oid_t \<Rightarrow> oid_t option \<Rightarrow> (oid_t \<times> oid_t) list \<Rightarrow> TileGroup \<Rightarrow>
    TileGroup option" where
  "fill_columns tile_group_p row_offset next_sample_row_id [] sample_tile_group_p =
     Some sample_tile_group_p"
| "fill_columns tile_group_p row_offset next_sample_row_id
     ((table_column_id, sample_column_id) # rest) sample_tile_group_p = do {
     (table_tile_offset, table_tile_column_offset) \<leftarrow>
        LocateTileAndColumn tile_group_p table_column_id;
     tile_p \<leftarrow> GetTile tile_group_p table_tile_offset;
     temp_value \<leftarrow> Tile_GetValue tile_p row_offset table_tile_column_offset;
     (sample_tile_offset, sample_tile_column_offset) \<leftarrow>
        LocateTileAndColumn sample_tile_group_p sample_column_id;
     if sample_tile_column_offset \<noteq> 0 \<or> sample_tile_offset \<noteq> sample_column_id then None
     else do {
       sample_tile_p \<leftarrow> GetTile sample_tile_group_p sample_tile_offset;
       sample_tile_p' \<leftarrow> (case next_sample_row_id of
                           None \<Rightarrow> None
                         | Some row \<Rightarrow> Tile_SetValue temp_value row sample_tile_column_offset
                                        sample_tile_p);
       fill_columns tile_group_p row_offset next_sample_row_id rest
         (sample_tile_group_p\<lparr>tiles := (tiles sample_tile_group_p)
                                 [sample_tile_offset := sample_tile_p']\<rparr>)
     }
   }"

fun fill_items :: "world \<Rightarrow> ItemPointer list \<Rightarrow> TileGroup \<Rightarrow> TileGroup option" where
  "fill_items w [] sample_tile_group_p = Some sample_tile_group_p"
| "fill_items w (item # rest) sample_tile_group_p = do {
     tile_group_p \<leftarrow> GetTileGroup w (block item);
     let (next_sample_row_id, h) = GetNextEmptyTupleSlot (tile_group_header sample_tile_group_p);
     sample_tile_group_p' \<leftarrow> fill_columns tile_group_p (offset item) next_sample_row_id
        (inline_column_map (table w)) (sample_tile_group_p\<lparr>tile_group_header := h\<rparr>);
     fill_items w rest sample_tile_group_p'
   }"

definition FillSampleTileGroup :: "world \<Rightarrow> world option" where
  "FillSampleTileGroup w =
     (if GetOptimizerSampleSize w = 0 then Some w
      else do {
        tgid \<leftarrow> sampled_tile_group_id (table w);
        sample_tile_group_p \<leftarrow> GetSampleTileGroup w;
        sample_tile_group_p' \<leftarrow> fill_items w (samples_for_optimizer (table w)) sample_tile_group_p;
        Some (w\<lparr>manager := AddTileGroup tgid sample_tile_group_p' (manager w)\<rparr>)
      })"

definition MaterializeSample :: "world \<Rightarrow> world option" where
  "MaterializeSample w =
     (if GetOptimizerSampleSize w = 0 then Some w
      else let w1 = (case sampled_tile_group_id (table w) of
                       None \<Rightarrow> w
                     | Some tgid \<Rightarrow> w\<lparr>manager := DropTileGroup tgid (manager w)\<rparr>)
           in case BuildSampleTileGroup w1 of
                (None, w2) \<Rightarrow> None
              | (Some tile_group_p, w2) \<Rightarrow>
                  FillSampleTileGroup
                    (w2\<lparr>table := (table w2)\<lparr>sampled_tile_group_id := Some (tile_group_id tile_group_p)\<rparr>,
                        manager := AddTileGroup (tile_group_id tile_group_p) tile_group_p (manager w2)\<rparr>))"

definition ComputeSampleCardinality :: "oid_t \<Rightarrow> world \<Rightarrow> world option" where
  "ComputeSampleCardinality sample_column_id w = do {
     sample_tile_group_p \<leftarrow> GetSampleTileGroup w;
     (tile_id, tile_column_id) \<leftarrow> LocateTileAndColumn sample_tile_group_p sample_column_id;
     if tile_column_id \<noteq> 0 then None
     else do {
       tile_p \<leftarrow> GetTile sample_tile_group_p tile_id;
       sample_values \<leftarrow> those (map (\<lambda>i. Tile_GetValue tile_p i tile_column_id)
                         [0..<GetOptimizerSampleSize w]);
       Some (w\<lparr>table := (table w)\<lparr>cardinality_map :=
               map_put sample_column_id (length (remdups sample_values))
                 (cardinality_map (table w))\<rparr>\<rparr>)
     }
   }"

definition ComputeTableCardinality :: "oid_t \<Rightarrow> world \<Rightarrow> world option" where
  "ComputeTableCardinality table_column_id w =
     (case map_of (inline_column_map (table w)) table_column_id of
        None \<Rightarrow> Some w
      | Some sample_column_id \<Rightarrow> ComputeSampleCardinality sample_column_id w)"

text \<open>
  The state after a first round of sampling: all four rows sampled and materialized, the
  cardinality of column 0 computed.
\<close>

definition sampled_world :: "world option" where
  "sampled_world = do {
     w \<leftarrow> sample_world;
     (k, w1) \<leftarrow> SampleRows all_visible always_row_three 4 w;
     w2 \<leftarrow> MaterializeSample w1;
     ComputeTableCardinality 0 w2
   }"

section \<open>Optimizer: the binding iterators\<close>

text \<open>
  The embedding follows \<^verbatim>\<open>src/backend/optimizer/binding.cpp\<close> and
  \<^verbatim>\<open>binding.h\<close>. The operators are those the \<^verbatim>\<open>ChildVisitor\<close> of
  \<^verbatim>\<open>binding.cpp\<close> visits, with the child groups it collects and, for
  \<^verbatim>\<open>LogicalGet\<close>, a number that tells two scans apart; \<^verbatim>\<open>LeafOperator\<close> is the
  operator of the plan node a \<^verbatim>\<open>Leaf\<close> pattern binds to.
\<close>

type_synonym GroupID = nat

datatype OpType =
  Leaf | Get | Project | Filter | InnerJoin | LeftJoin | RightJoin | OuterJoin | Aggregate | Limit

datatype Operator =
    LeafOperator GroupID
  | LogicalGet nat
  | LogicalProject GroupID
  | LogicalFilter GroupID
  | LogicalInnerJoin GroupID GroupID
  | LogicalLeftJoin GroupID GroupID
  | LogicalRightJoin GroupID GroupID
  | LogicalOuterJoin GroupID GroupID
  | LogicalAggregate GroupID
  | LogicalLimit GroupID

fun Operator_type :: "Operator \<Rightarrow> OpType" where
  "Operator_type (LeafOperator origin_group) = Leaf"
| "Operator_type (LogicalGet t) = Get"
| "Operator_type (LogicalProject child) = Project"
| "Operator_type (LogicalFilter child) = Filter"
| "Operator_type (LogicalInnerJoin outer inner) = InnerJoin"
| "Operator_type (LogicalLeftJoin outer inner) = LeftJoin"
| "Operator_type (LogicalRightJoin outer inner) = RightJoin"
| "Operator_type (LogicalOuterJoin outer inner) = OuterJoin"
| "Operator_type (LogicalAggregate child) = Aggregate"
| "Operator_type (LogicalLimit child) = Limit"

text \<open>\<^verbatim>\<open>ChildVisitor::GetChildren\<close>; no \<^verbatim>\<open>visit\<close> is written for a leaf operator.\<close>

fun GetChildren :: "Operator \<Rightarrow> GroupID list" where
  "GetChildren (LeafOperator origin_group) = []"
| "GetChildren (LogicalGet t) = []"
| "GetChildren (LogicalProject child) = [child]"
| "GetChildren (LogicalFilter child) = [child]"
| "GetChildren (LogicalInnerJoin outer inner) = [outer, inner]"
| "GetChildren (LogicalLeftJoin outer inner) = [outer, inner]"
| "GetChildren (LogicalRightJoin outer inner) = [outer, inner]"
| "GetChildren (LogicalOuterJoin outer inner) = [outer, inner]"
| "GetChildren (LogicalAggregate child) = [child]"
| "GetChildren (LogicalLimit child) = [child]"

text \<open>
  Modelled from the spec: \<^verbatim>\<open>pattern.h\<close>, \<^verbatim>\<open>group.h\<close> and \<^verbatim>\<open>op_plan_node.h\<close>
  are not among the sources. A pattern is a tree of \<open>(op_type, children)\<close>. A group carries
  an ordered list of operator items and a parallel list of \<open>explored\<close> flags;
  \<open>set_explored\<close> sets one flag. A plan node holds its operator and the pointers to its
  children; \<open>PushChild\<close> appends a pointer and \<open>PopChild\<close> removes the last one.
\<close>

datatype Pattern = Pattern OpType "Pattern list"

fun Pattern_Type :: "Pattern \<Rightarrow> OpType" where
  "Pattern_Type (Pattern t children) = t"

fun Pattern_Children :: "Pattern \<Rightarrow> Pattern list" where
  "Pattern_Children (Pattern t children) = children"

record Group =
  group_items :: "Operator list"
  explored_flags :: "bool list"

definition set_explored :: "nat \<Rightarrow> Group \<Rightarrow> Group" where
  "set_explored i g = g\<lparr>explored_flags := (explored_flags g)[i := True]\<rparr>"

record OpPlanNode =
  node_op :: Operator
  node_children :: "nat list"

text \<open>
  Plan nodes live behind \<^verbatim>\<open>std::shared_ptr\<close> and are changed in place through every
  pointer to them, so they are kept in a store: a pointer is an index into \<open>plan_nodes\<close>,
  \<^verbatim>\<open>make_shared\<close> appends a node.

  The state of the optimizer: its groups (\<^verbatim>\<open>optimizer.groups\<close>), its rules, the store
  of plan nodes, and the calls of \<^verbatim>\<open>Optimizer::ExploreItem\<close> made so far, as
  \<open>(group, item, rule)\<close>. The body of \<^verbatim>\<open>ExploreItem\<close> is not among the sources: it is
  the parameter \<open>ExploreItem\<close> of the functions below, a function on the groups.
\<close>

record 'r Optimizer =
  groups :: "Group list"
  rules :: "'r list"
  plan_nodes :: "OpPlanNode list"
  explore_calls :: "(GroupID \<times> nat \<times> 'r) list"

definition make_shared :: "OpPlanNode \<Rightarrow> 'r Optimizer \<Rightarrow> nat \<times> 'r Optimizer" where
  "make_shared n s = (length (plan_nodes s), s\<lparr>plan_nodes := plan_nodes s @ [n]\<rparr>)"

definition PushChild :: "nat \<Rightarrow> nat \<Rightarrow> 'r Optimizer \<Rightarrow> 'r Optimizer option" where
  "PushChild node child s =
     (if node < length (plan_nodes s)
      then Some (s\<lparr>plan_nodes := (plan_nodes s)[node := (plan_nodes s ! node)
               \<lparr>node_children := node_children (plan_nodes s ! node) @ [child]\<rparr>]\<rparr>)
      else None)"

definition PopChild :: "nat \<Rightarrow> 'r Optimizer \<Rightarrow> 'r Optimizer option" where
  "PopChild node s =
     (if node < length (plan_nodes s) \<and> node_children (plan_nodes s ! node) \<noteq> []
      then Some (s\<lparr>plan_nodes := (plan_nodes s)[node := (plan_nodes s ! node)
               \<lparr>node_children := butlast (node_children (plan_nodes s ! node))\<rparr>]\<rparr>)
      else None)"

subsection \<open>Construction of a group iterator: rule exploration\<close>

record ItemBindingIterator =
  item_group_id :: GroupID
  item_index :: nat
  item_pattern :: Pattern
  first :: bool
  has_next :: bool
  current_binding :: nat
  children_bindings :: "nat list list"
  children_bindings_pos :: "nat list"

text \<open>
  The members \<^verbatim>\<open>target_group\<close>, \<^verbatim>\<open>target_group_items\<close> and
  \<^verbatim>\<open>target_group_explored\<close> of a \<^verbatim>\<open>GroupBindingIterator\<close> are references into the
  vector \<^verbatim>\<open>optimizer.groups\<close> (\<^verbatim>\<open>binding.h\<close>), bound by the constructor to
  \<^verbatim>\<open>groups[id]\<close> and to its two vectors. They are read through the state each time they
  are used, and they are valid only as long as the vector of groups has not been
  reallocated. The sources do not fix the capacity of that vector, so every change of its
  size is taken to reallocate it: \<open>groups_size\<close> is the size of the vector when the
  references were bound, and \<open>target_group_ref\<close>, the use of a reference, has no result in
  a state where the vector has another size (the code reads through a dangling
  reference). A change inside a group, such as items appended to it, leaves the
  references valid.

  \<open>visited\<close> is not a member of the class: it lists the items for which this iterator has
  constructed an \<^verbatim>\<open>ItemBindingIterator\<close> so far, in the order of the constructions, for
  the statements about what an iterator visits.
\<close>

record GroupBindingIterator =
  group_id :: GroupID
  pattern :: Pattern
  groups_size :: nat
  current_item_index :: nat
  current_iterator :: "ItemBindingIterator option"
  visited :: "nat list"

definition target_group_ref :: "nat \<Rightarrow> GroupID \<Rightarrow> 'r Optimizer \<Rightarrow> Group option" where
  "target_group_ref size_when_bound gid s =
     (if length (groups s) = size_when_bound then nth_opt (groups s) gid else None)"

fun apply_rules :: "(GroupID \<Rightarrow> nat \<Rightarrow> 'r \<Rightarrow> Group list \<Rightarrow> Group list) \<Rightarrow> GroupID \<Rightarrow> nat \<Rightarrow>
    'r list \<Rightarrow> 'r Optimizer \<Rightarrow> 'r Optimizer" where
  "apply_rules ExploreItem gid i [] s = s"
| "apply_rules ExploreItem gid i (rule # rest) s =
     apply_rules ExploreItem gid i rest
       (s\<lparr>groups := ExploreItem gid i rule (groups s),
          explore_calls := explore_calls s @ [(gid, i, rule)]\<rparr>)"

text \<open>
  The loop of the constructor,
  \<^verbatim>\<open>for (size_t i = 0; i < target_group_items.size(); ++i)\<close>, on fuel: one unit per
  test of the loop condition. \<^verbatim>\<open>target_group_items\<close> is a reference, so the size is
  that of the group as it is at each test; \<open>size_when_bound\<close> is the size of the vector
  of groups when the constructor bound the references.
\<close>

fun explore_loop :: "nat \<Rightarrow> (GroupID \<Rightarrow> nat \<Rightarrow> 'r \<Rightarrow> Group list \<Rightarrow> Group list) \<Rightarrow> nat \<Rightarrow>
    GroupID \<Rightarrow> nat \<Rightarrow> 'r Optimizer \<Rightarrow> 'r Optimizer option" where
  "explore_loop 0 ExploreItem size_when_bound gid i s = None"
| "explore_loop (Suc fuel) ExploreItem size_when_bound gid i s = do {
     target_group \<leftarrow> target_group_ref size_when_bound gid s;
     if i < length (group_items target_group) then do {
       flag \<leftarrow> nth_opt (explored_flags target_group) i;
       if \<not> flag then
         explore_loop fuel ExploreItem size_when_bound gid (i + 1)
           (apply_rules ExploreItem gid i (rules s)
              (s\<lparr>groups := (groups s)[gid := set_explored i target_group]\<rparr>))
       else explore_loop fuel ExploreItem size_when_bound gid (i + 1) s
     } else Some s
   }"

definition GroupBindingIterator_new :: "nat \<Rightarrow> (GroupID \<Rightarrow> nat \<Rightarrow> 'r \<Rightarrow> Group list \<Rightarrow> Group list) \<Rightarrow>
    GroupID \<Rightarrow> Pattern \<Rightarrow> 'r Optimizer \<Rightarrow> (GroupBindingIterator \<times> 'r Optimizer) option" where
  "GroupBindingIterator_new fuel ExploreItem gid pat s = do {
     s' \<leftarrow> explore_loop fuel ExploreItem (length (groups s)) gid 0 s;
     Some (\<lparr>group_id = gid, pattern = pat, groups_size = length (groups s),
            current_item_index = 0, current_iterator = None, visited = []\<rparr>, s')
   }"

subsection \<open>The item iterator: the odometer over the children's bindings\<close>

text \<open>
  The first loop of \<^verbatim>\<open>ItemBindingIterator::HasNext\<close>, with \<open>todo = size - i\<close>
  iterations left; it returns the \<open>i\<close> at which the loop was left.
\<close>

fun carry :: "nat \<Rightarrow> nat \<Rightarrow> nat \<Rightarrow> ItemBindingIterator \<Rightarrow> 'r Optimizer \<Rightarrow>
    (nat \<times> ItemBindingIterator \<times> 'r Optimizer) option" where
  "carry 0 i sz it s = Some (i, it, s)"
| "carry (Suc todo) i sz it s = do {
     s' \<leftarrow> PopChild (current_binding it) s;
     child_binding \<leftarrow> nth_opt (children_bindings it) (sz - 1 - i);
     pos \<leftarrow> nth_opt (children_bindings_pos it) (sz - 1 - i);
     let new_pos = pos + 1;
     if new_pos < length child_binding
     then Some (i, it\<lparr>children_bindings_pos := (children_bindings_pos it)[sz - 1 - i := new_pos]\<rparr>, s')
     else carry todo (i + 1) sz
            (it\<lparr>children_bindings_pos := (children_bindings_pos it)[sz - 1 - i := 0]\<rparr>) s'
   }"

text \<open>The second loop, \<^verbatim>\<open>for (size_t j = 0; j < i + 1; ++j)\<close>.\<close>

fun replay :: "nat list \<Rightarrow> nat \<Rightarrow> ItemBindingIterator \<Rightarrow> 'r Optimizer \<Rightarrow> 'r Optimizer option" where
  "replay [] offs it s = Some s"
| "replay (j # js) offs it s = do {
     child_binding \<leftarrow> nth_opt (children_bindings it) (offs + j);
     pos \<leftarrow> nth_opt (children_bindings_pos it) (offs + j);
     binding \<leftarrow> nth_opt child_binding pos;
     s' \<leftarrow> PushChild (current_binding it) binding s;
     replay js offs it s'
   }"

definition ItemBindingIterator_HasNext :: "ItemBindingIterator \<Rightarrow> 'r Optimizer \<Rightarrow>
    (bool \<times> ItemBindingIterator \<times> 'r Optimizer) option" where
  "ItemBindingIterator_HasNext it s =
     (if has_next it \<and> first it then Some (True, it\<lparr>first := False\<rparr>, s)
      else if has_next it then do {
        let sz = length (children_bindings_pos it);
        (i, it', s') \<leftarrow> carry sz 0 sz it s;
        if i = sz then Some (False, it'\<lparr>has_next := False\<rparr>, s')
        else do {
          s'' \<leftarrow> replay [0..<i + 1] (sz - 1 - i) it' s';
          Some (True, it', s'')
        }
      }
      else Some (False, it, s))"

definition ItemBindingIterator_Next :: "ItemBindingIterator \<Rightarrow> nat" where
  "ItemBindingIterator_Next it = current_binding it"

subsection \<open>Group and item iterators\<close>

text \<open>
  The constructor of \<^verbatim>\<open>ItemBindingIterator\<close> runs, for every child group, the block
  \<^verbatim>\<open>GroupBindingIterator iterator(optimizer, child_groups[i], child_patterns[i]);
  while (iterator.HasNext()) child_bindings.push_back(iterator.Next());\<close>
  and \<^verbatim>\<open>GroupBindingIterator::HasNext\<close> constructs item iterators. The recursion is
  tied in \<open>bind_child\<close> below, which is that block; the functions before it take it as
  the parameter \<open>bind_child\<close>. Loops whose bound can grow while they run, and the nesting
  of iterators, run on fuel.
\<close>

definition GroupBindingIterator_Next :: "GroupBindingIterator \<Rightarrow> 'r Optimizer \<Rightarrow>
    (nat \<times> GroupBindingIterator \<times> 'r Optimizer) option" where
  "GroupBindingIterator_Next git s =
     (if Pattern_Type (pattern git) = Leaf then do {
        target_group \<leftarrow> target_group_ref (groups_size git) (group_id git) s;
        let (node, s') = make_shared \<lparr>node_op = LeafOperator (group_id git), node_children = []\<rparr> s;
        Some (node, git\<lparr>current_item_index := length (group_items target_group)\<rparr>, s')
      }
      else do {
        it \<leftarrow> current_iterator git;
        Some (ItemBindingIterator_Next it, git, s)
      })"

text \<open>
  The loop \<^verbatim>\<open>for (size_t i = 0; i < child_groups.size(); ++i)\<close> of the constructor of
  \<^verbatim>\<open>ItemBindingIterator\<close>, with \<open>todo = child_groups.size() - i\<close> iterations left. It
  returns early, leaving \<open>has_next\<close> false, when a child has no binding.
\<close>

fun collect_children :: "nat \<Rightarrow> (GroupID \<Rightarrow> Pattern \<Rightarrow> 'r Optimizer \<Rightarrow> (nat list \<times> 'r Optimizer) option) \<Rightarrow>
    GroupID list \<Rightarrow> Pattern list \<Rightarrow> nat \<Rightarrow> ItemBindingIterator \<Rightarrow> 'r Optimizer \<Rightarrow>
    (ItemBindingIterator \<times> 'r Optimizer) option" where
  "collect_children 0 bind_child child_groups child_patterns i it s = Some (it\<lparr>has_next := True\<rparr>, s)"
| "collect_children (Suc todo) bind_child child_groups child_patterns i it s = do {
     child_group \<leftarrow> nth_opt child_groups i;
     child_pattern \<leftarrow> nth_opt child_patterns i;
     (child_bindings, s1) \<leftarrow> bind_child child_group child_pattern s;
     let it' = it\<lparr>children_bindings := (children_bindings it)[i := child_bindings]\<rparr>;
     if length child_bindings = 0 then Some (it', s1)
     else do {
       s2 \<leftarrow> PushChild (current_binding it) (child_bindings ! 0) s1;
       collect_children todo bind_child child_groups child_patterns (i + 1) it' s2
     }
   }"

definition ItemBindingIterator_new ::
  "(GroupID \<Rightarrow> Pattern \<Rightarrow> 'r Optimizer \<Rightarrow> (nat list \<times> 'r Optimizer) option) \<Rightarrow>
    GroupID \<Rightarrow> nat \<Rightarrow> Pattern \<Rightarrow> 'r Optimizer \<Rightarrow> (ItemBindingIterator \<times> 'r Optimizer) option" where
  "ItemBindingIterator_new bind_child gid idx pat s = do {
     g \<leftarrow> nth_opt (groups s) gid;
     item \<leftarrow> nth_opt (group_items g) idx;
     let (node, s1) = make_shared \<lparr>node_op = item, node_children = []\<rparr> s;
     let it = \<lparr>item_group_id = gid, item_index = idx, item_pattern = pat, first = True,
                has_next = False, current_binding = node, children_bindings = [],
                children_bindings_pos = []\<rparr>;
     if Operator_type item \<noteq> Pattern_Type pat then Some (it, s1)
     else let child_groups = GetChildren item; child_patterns = Pattern_Children pat in
       if length child_groups \<noteq> length child_patterns then Some (it, s1)
       else collect_children (length child_groups) bind_child child_groups child_patterns 0
              (it\<lparr>children_bindings := replicate (length child_groups) [],
                  children_bindings_pos := replicate (length child_groups) 0\<rparr>) s1
   }"

text \<open>
  The loop \<^verbatim>\<open>while (current_item_index < target_group_items.size())\<close> of
  \<^verbatim>\<open>GroupBindingIterator::HasNext\<close>, one unit of fuel per test of its condition.
\<close>

fun scan_items :: "nat \<Rightarrow> (GroupID \<Rightarrow> Pattern \<Rightarrow> 'r Optimizer \<Rightarrow> (nat list \<times> 'r Optimizer) option) \<Rightarrow>
    GroupBindingIterator \<Rightarrow> 'r Optimizer \<Rightarrow> (GroupBindingIterator \<times> 'r Optimizer) option" where
  "scan_items 0 bind_child git s = None"
| "scan_items (Suc fuel) bind_child git s = do {
     target_group \<leftarrow> target_group_ref (groups_size git) (group_id git) s;
     if current_item_index git < length (group_items target_group) then do {
       (it, s1) \<leftarrow> ItemBindingIterator_new bind_child (group_id git)
                     (current_item_index git) (pattern git) s;
       let git1 = git\<lparr>visited := visited git @ [current_item_index git]\<rparr>;
       (more, it', s2) \<leftarrow> ItemBindingIterator_HasNext it s1;
       if more then Some (git1\<lparr>current_iterator := Some it'\<rparr>, s2)
       else scan_items fuel bind_child
              (git1\<lparr>current_iterator := None, current_item_index := current_item_index git + 1\<rparr>) s2
     } else Some (git, s)
   }"

definition GroupBindingIterator_HasNext ::
  "nat \<Rightarrow> (GroupID \<Rightarrow> Pattern \<Rightarrow> 'r Optimizer \<Rightarrow> (nat list \<times> 'r Optimizer) option) \<Rightarrow>
    GroupBindingIterator \<Rightarrow> 'r Optimizer \<Rightarrow> (bool \<times> GroupBindingIterator \<times> 'r Optimizer) option" where
  "GroupBindingIterator_HasNext fuel bind_child git s =
     (if Pattern_Type (pattern git) = Leaf then Some (current_item_index git = 0, git, s)
      else do {
        (git1, s1) \<leftarrow>
          (case current_iterator git of
             None \<Rightarrow> Some (git, s)
           | Some it \<Rightarrow> do {
               (more, it', s') \<leftarrow> ItemBindingIterator_HasNext it s;
               if \<not> more
               then Some (git\<lparr>current_iterator := None,
                               current_item_index := current_item_index git + 1\<rparr>, s')
               else Some (git\<lparr>current_iterator := Some it'\<rparr>, s')
             });
        (git2, s2) \<leftarrow>
          (if current_iterator git1 = None then scan_items fuel bind_child git1 s1
           else Some (git1, s1));
        Some (current_iterator git2 \<noteq> None, git2, s2)
      })"

text \<open>
  The loop \<^verbatim>\<open>while (iterator.HasNext()) child_bindings.push_back(iterator.Next())\<close>,
  one unit of fuel per call of \<^verbatim>\<open>HasNext\<close>.
\<close>

fun collect_bindings :: "nat \<Rightarrow> (GroupID \<Rightarrow> Pattern \<Rightarrow> 'r Optimizer \<Rightarrow> (nat list \<times> 'r Optimizer) option) \<Rightarrow>
    GroupBindingIterator \<Rightarrow> nat list \<Rightarrow> 'r Optimizer \<Rightarrow>
    (nat list \<times> GroupBindingIterator \<times> 'r Optimizer) option" where
  "collect_bindings 0 bind_child iterator child_bindings s = None"
| "collect_bindings (Suc fuel) bind_child iterator child_bindings s = do {
     (more, iterator1, s1) \<leftarrow> GroupBindingIterator_HasNext fuel bind_child iterator s;
     if more then do {
       (binding, iterator2, s2) \<leftarrow> GroupBindingIterator_Next iterator1 s1;
       collect_bindings fuel bind_child iterator2 (child_bindings @ [binding]) s2
     } else Some (child_bindings, iterator1, s1)
   }"

fun bind_child :: "nat \<Rightarrow> (GroupID \<Rightarrow> nat \<Rightarrow> 'r \<Rightarrow> Group list \<Rightarrow> Group list) \<Rightarrow>
    GroupID \<Rightarrow> Pattern \<Rightarrow> 'r Optimizer \<Rightarrow> (nat list \<times> 'r Optimizer) option" where
  "bind_child 0 ExploreItem gid pat s = None"
| "bind_child (Suc fuel) ExploreItem gid pat s = do {
     (iterator, s1) \<leftarrow> GroupBindingIterator_new fuel ExploreItem gid pat s;
     (child_bindings, iterator', s2) \<leftarrow>
        collect_bindings fuel (bind_child fuel ExploreItem) iterator [] s1;
     Some (child_bindings, s2)
   }"

subsection \<open>Running an iterator to exhaustion\<close>

text \<open>
  A plan as a caller sees it when it follows the pointers from a node, to a bounded depth.
\<close>

datatype plan = Plan Operator "plan list"

fun read_plan :: "nat \<Rightarrow> OpPlanNode list \<Rightarrow> nat \<Rightarrow> plan option" where
  "read_plan 0 nodes node = None"
| "read_plan (Suc depth) nodes node = do {
     n \<leftarrow> nth_opt nodes node;
     children \<leftarrow> those (map (read_plan depth nodes) (node_children n));
     Some (Plan (node_op n) children)
   }"

text \<open>
  The caller's loop \<^verbatim>\<open>while (it.HasNext()) use(it.Next())\<close>: every plan is read at
  the moment \<^verbatim>\<open>Next\<close> returns it, before the next call of \<^verbatim>\<open>HasNext\<close>.
\<close>

fun run_group_iterator :: "nat \<Rightarrow> (GroupID \<Rightarrow> nat \<Rightarrow> 'r \<Rightarrow> Group list \<Rightarrow> Group list) \<Rightarrow>
    GroupBindingIterator \<Rightarrow> plan list \<Rightarrow> 'r Optimizer \<Rightarrow>
    (plan list \<times> GroupBindingIterator \<times> 'r Optimizer) option" where
  "run_group_iterator 0 ExploreItem git seen s = None"
| "run_group_iterator (Suc fuel) ExploreItem git seen s = do {
     (more, git1, s1) \<leftarrow>
       GroupBindingIterator_HasNext fuel (bind_child fuel ExploreItem) git s;
     if more then do {
       (node, git2, s2) \<leftarrow> GroupBindingIterator_Next git1 s1;
       p \<leftarrow> read_plan fuel (plan_nodes s2) node;
       run_group_iterator fuel ExploreItem git2 (seen @ [p]) s2
     } else Some (seen, git1, s1)
   }"

definition bind_group :: "nat \<Rightarrow> (GroupID \<Rightarrow> nat \<Rightarrow> 'r \<Rightarrow> Group list \<Rightarrow> Group list) \<Rightarrow>
    GroupID \<Rightarrow> Pattern \<Rightarrow> 'r Optimizer \<Rightarrow> (plan list \<times> 'r Optimizer) option" where
  "bind_group fuel ExploreItem gid pat s = do {
     (git, s1) \<leftarrow> GroupBindingIterator_new fuel ExploreItem gid pat s;
     (seen, git', s2) \<leftarrow> run_group_iterator fuel ExploreItem git [] s1;
     Some (seen, s2)
   }"

text \<open>
  Following the spec's words, not the code: the plan trees that match a pattern rooted at
  an item of a group. A \<open>Leaf\<close> pattern matches any group with the one-node plan
  \<open>LeafOperator(group)\<close>; another pattern matches an item of its type with as many child
  groups as the pattern has children, with every combination of matches of the children.
\<close>

primrec matching_plans :: "Pattern \<Rightarrow> Group list \<Rightarrow> GroupID \<Rightarrow> plan list" where
  "matching_plans (Pattern t children) =
     (\<lambda>gs gid.
        if t = Leaf then [Plan (LeafOperator gid) []]
        else concat (map (\<lambda>item.
               if Operator_type item = t \<and> length (GetChildren item) = length children
               then map (Plan item)
                      (product_lists (map2 (\<lambda>m child. m gs child)
                         (map matching_plans children) (GetChildren item)))
               else [])
             (case nth_opt gs gid of None \<Rightarrow> [] | Some g \<Rightarrow> group_items g)))"

text \<open>Memos without rules: a call of \<open>ExploreItem\<close> changes nothing.\<close>

definition no_rules :: "GroupID \<Rightarrow> nat \<Rightarrow> unit \<Rightarrow> Group list \<Rightarrow> Group list" where
  "no_rules gid i rule gs = gs"

definition new_group :: "Operator list \<Rightarrow> Group" where
  "new_group ops = \<lparr>group_items = ops, explored_flags = map (\<lambda>item. False) ops\<rparr>"

definition new_memo :: "Operator list list \<Rightarrow> unit Optimizer" where
  "new_memo gs = \<lparr>groups = map new_group gs, rules = [], plan_nodes = [], explore_calls = []\<rparr>"

definition join_memo :: "unit Optimizer" where
  "join_memo = new_memo [[LogicalInnerJoin 1 2], [LogicalGet 10, LogicalGet 11],
                         [LogicalGet 20, LogicalGet 21, LogicalGet 22]]"

definition filter_memo :: "unit Optimizer" where
  "filter_memo = new_memo [[LogicalFilter 1], [LogicalFilter 2], [LogicalGet 7]]"

definition empty_group_memo :: "unit Optimizer" where
  "empty_group_memo = new_memo [[]]"

text \<open>
  Item \<open>j\<close> of group \<open>k\<close> is marked explored. \<^verbatim>\<open>ExploreItem\<close> is \<open>sticky\<close> when no
  call of it removes a mark: the spec's ``the \<open>explored\<close> flag is sticky''.
\<close>

definition flagged :: "Group list \<Rightarrow> GroupID \<Rightarrow> nat \<Rightarrow> bool" where
  "flagged gs k j \<longleftrightarrow>
     k < length gs \<and> j < length (explored_flags (gs ! k)) \<and> explored_flags (gs ! k) ! j"

definition sticky :: "(GroupID \<Rightarrow> nat \<Rightarrow> 'r \<Rightarrow> Group list \<Rightarrow> Group list) \<Rightarrow> bool" where
  "sticky ExploreItem \<longleftrightarrow>
     (\<forall>gid i rule gs k j. flagged gs k j \<longrightarrow> flagged (ExploreItem gid i rule gs) k j)"

text \<open>
  \<^verbatim>\<open>ExploreItem\<close> \<open>marks_nothing\<close> when it sets no mark of its own: an item is marked
  after a call only if it was marked before, so that the items a call appends are unmarked
  (the spec: ``they will be unmarked'').
\<close>

definition marks_nothing :: "(GroupID \<Rightarrow> nat \<Rightarrow> 'r \<Rightarrow> Group list \<Rightarrow> Group list) \<Rightarrow> bool" where
  "marks_nothing ExploreItem \<longleftrightarrow>
     (\<forall>gid i rule gs k j. flagged (ExploreItem gid i rule gs) k j \<longrightarrow> flagged gs k j)"



definition same_memo :: "'r Optimizer \<Rightarrow> 'r Optimizer \<Rightarrow> bool" where
  "same_memo s s' \<longleftrightarrow>
     groups s' = groups s \<and> rules s' = rules s \<and> explore_calls s' = explore_calls s"


text \<open>
  \<^verbatim>\<open>ExploreItem\<close> is \<open>local_explore\<close> when exploring an item changes no group but the
  item's own. Group \<open>g\<close> is \<open>fully_explored\<close> in a state when every item it holds is
  marked.
\<close>

definition local_explore :: "(GroupID \<Rightarrow> nat \<Rightarrow> 'r \<Rightarrow> Group list \<Rightarrow> Group list) \<Rightarrow> bool" where
  "local_explore ExploreItem \<longleftrightarrow>
     (\<forall>gid i rule gs k. k \<noteq> gid \<longrightarrow> nth_opt (ExploreItem gid i rule gs) k = nth_opt gs k)"


text \<open>
  Modelled from the spec: exploration ``may append new items to this group''. A group
  receives items at its end, each with its \<open>explored\<close> flag unset.
\<close>

definition append_items :: "Operator list \<Rightarrow> Group \<Rightarrow> Group" where
  "append_items ops g = \<lparr>group_items = group_items g @ ops,
                         explored_flags = explored_flags g @ map (\<lambda>item. False) ops\<rparr>"



definition append_once :: "GroupID \<Rightarrow> nat \<Rightarrow> unit \<Rightarrow> Group list \<Rightarrow> Group list" where
  "append_once gid i rule gs =
     (case nth_opt gs gid of
        None \<Rightarrow> gs
      | Some g \<Rightarrow> if length (group_items g) < 2
                  then gs[gid := append_items [LogicalGet 99] g] else gs)"

definition append_to_parent :: "GroupID \<Rightarrow> nat \<Rightarrow> unit \<Rightarrow> Group list \<Rightarrow> Group list" where
  "append_to_parent gid i rule gs =
     (case nth_opt gs 0 of
        None \<Rightarrow> gs
      | Some g \<Rightarrow> if gid = 1 \<and> length (group_items g) < 2
                  then gs[0 := append_items [LogicalFilter 1] g] else gs)"

definition with_rule :: "unit Optimizer \<Rightarrow> unit Optimizer" where
  "with_rule s = s\<lparr>rules := [()]\<rparr>"

definition scan_memo :: "unit Optimizer" where
  "scan_memo = with_rule (new_memo [[LogicalGet 1]])"

definition filter_scan_memo :: "unit Optimizer" where
  "filter_scan_memo = with_rule (new_memo [[LogicalFilter 1], [LogicalGet 1]])"

subsection \<open>The item iterator run to exhaustion\<close>

text \<open>
  The caller's loop over an item iterator: what is recorded of every plan is the list of
  child pointers its node holds when \<^verbatim>\<open>Next\<close> returns it.
\<close>

fun run_item_iterator :: "nat \<Rightarrow> ItemBindingIterator \<Rightarrow> nat list list \<Rightarrow> 'r Optimizer \<Rightarrow>
    (nat list list \<times> ItemBindingIterator \<times> 'r Optimizer) option" where
  "run_item_iterator 0 it seen s = None"
| "run_item_iterator (Suc fuel) it seen s = do {
     (more, it1, s1) \<leftarrow> ItemBindingIterator_HasNext it s;
     if more then do {
       n \<leftarrow> nth_opt (plan_nodes s1) (ItemBindingIterator_Next it1);
       run_item_iterator fuel it1 (seen @ [node_children n]) s1
     } else Some (seen, it1, s1)
   }"

text \<open>
  The positions alone: \<open>carry_pos\<close> is the first loop of \<^verbatim>\<open>HasNext\<close> on the vector of
  positions, given the sizes of the children's binding lists. \<open>rank\<close> reads a vector of
  positions as a number in the mixed radix of the sizes, leftmost position most
  significant.
\<close>

fun carry_pos :: "nat \<Rightarrow> nat \<Rightarrow> nat \<Rightarrow> nat list \<Rightarrow> nat list \<Rightarrow> nat \<times> nat list" where
  "carry_pos 0 i sz lens pos = (i, pos)"
| "carry_pos (Suc todo) i sz lens pos =
     (if pos ! (sz - 1 - i) + 1 < lens ! (sz - 1 - i)
      then (i, pos[sz - 1 - i := pos ! (sz - 1 - i) + 1])
      else carry_pos todo (i + 1) sz lens (pos[sz - 1 - i := 0]))"

fun rank :: "nat list \<Rightarrow> nat list \<Rightarrow> nat" where
  "rank (n # lens) (p # pos) = p * prod_list lens + rank lens pos"
| "rank lens pos = 0"

definition valid_pos :: "nat list \<Rightarrow> nat list \<Rightarrow> bool" where
  "valid_pos lens pos \<longleftrightarrow> length pos = length lens \<and> (\<forall>k < length lens. pos ! k < lens ! k)"

text \<open>
  \<open>keeps n s s'\<close>: from \<open>s\<close> to \<open>s'\<close> the store of plan nodes has not shrunk and the nodes
  below address \<open>n\<close> are unchanged. \<open>frames binder\<close>: a run of \<open>binder\<close> leaves
  the nodes that exist when it starts unchanged.
\<close>

definition keeps :: "nat \<Rightarrow> 'r Optimizer \<Rightarrow> 'r Optimizer \<Rightarrow> bool" where
  "keeps n s s' \<longleftrightarrow> length (plan_nodes s) \<le> length (plan_nodes s') \<and>
     (\<forall>k < n. plan_nodes s' ! k = plan_nodes s ! k)"

definition frames :: "(GroupID \<Rightarrow> Pattern \<Rightarrow> 'r Optimizer \<Rightarrow> (nat list \<times> 'r Optimizer) option) \<Rightarrow> bool" where
  "frames binder \<longleftrightarrow>
     (\<forall>gid pat s bs s'. binder gid pat s = Some (bs, s') \<longrightarrow> keeps (length (plan_nodes s)) s s')"

section \<open>Insertion keeps the slot counters and the tuple count in step\<close>

lemma CopyTuple_frame:
  "CopyTuple vs i slot tg = Some tg' \<Longrightarrow>
     tile_group_id tg' = tile_group_id tg \<and> tile_group_header tg' = tile_group_header tg \<and>
     tg_num_tuple_slots tg' = tg_num_tuple_slots tg \<and> column_map tg' = column_map tg"
proof (induction vs arbitrary: i tg)
  case Nil
  then show ?case by simp
next
  case (Cons v vs)
  from Cons.prems obtain tg1 where
    s: "TileGroup_SetValue v slot i tg = Some tg1" and c: "CopyTuple vs (i + 1) slot tg1 = Some tg'"
    by (auto split: bind_splits)
  from s have "tile_group_id tg1 = tile_group_id tg \<and> tile_group_header tg1 = tile_group_header tg \<and>
     tg_num_tuple_slots tg1 = tg_num_tuple_slots tg \<and> column_map tg1 = column_map tg"
    by (auto simp: TileGroup_SetValue_def split: bind_splits)
  with Cons.IH [OF c] show ?case by simp
qed

lemma InsertTuple_full:
  "TileGroup_InsertTuple tuple tg = Some (None, tg') \<Longrightarrow>
     tg' = tg \<and> \<not> next_tuple_slot (tile_group_header tg) < num_tuple_slots (tile_group_header tg)"
  by (auto simp: TileGroup_InsertTuple_def GetNextEmptyTupleSlot_def split: if_splits bind_splits)

lemma InsertTuple_slot:
  "TileGroup_InsertTuple tuple tg = Some (Some slot, tg') \<Longrightarrow>
     slot = next_tuple_slot (tile_group_header tg) \<and>
     slot < num_tuple_slots (tile_group_header tg) \<and>
     tile_group_header tg' = (tile_group_header tg)\<lparr>next_tuple_slot := slot + 1\<rparr> \<and>
     tile_group_id tg' = tile_group_id tg \<and> tg_num_tuple_slots tg' = tg_num_tuple_slots tg"
  by (auto simp: TileGroup_InsertTuple_def GetNextEmptyTupleSlot_def
           split: if_splits bind_splits dest!: CopyTuple_frame)

lemma AddDefaultTileGroup_cases:
  assumes "AddDefaultTileGroup w = Some (r, w')"
  shows "oid (manager w') = oid (manager w) + 1 \<and>
         peloton_layout_mode w' = peloton_layout_mode w \<and> hyadapt_column_map w' = hyadapt_column_map w \<and>
         ((r = None \<and> table w' = table w \<and> locator (manager w') = locator (manager w)) \<or>
          (\<exists>tg. r = Some (oid (manager w) + 1) \<and>
             table w' = (table w)\<lparr>tile_groups := tile_groups (table w) @ [oid (manager w) + 1]\<rparr> \<and>
             locator (manager w') = (locator (manager w))(oid (manager w) + 1 \<mapsto> tg) \<and>
             tile_group_id tg = oid (manager w) + 1 \<and>
             tile_group_header tg = TileGroupHeader_new (tuples_per_tilegroup (table w)) \<and>
             tg_num_tuple_slots tg = tuples_per_tilegroup (table w)))"
  using assms
  by (auto simp: AddDefaultTileGroup_def GetTileGroupWithLayout_def GetNextOid_def AddTileGroup_def
        TileGroupFactory_GetTileGroup_def Let_def split: bind_splits if_splits prod.splits)

lemma next_slots_update_last:
  assumes "distinct (tile_groups (table w))" "tile_groups (table w) \<noteq> []"
    and "table w' = table w"
    and "locator (manager w') = (locator (manager w))(last (tile_groups (table w)) \<mapsto> tg)"
  shows "next_slots w' = butlast (next_slots w) @ [GetNextTupleSlot tg]"
proof -
  obtain xs x where xs: "tile_groups (table w) = xs @ [x]"
    using assms(2) by (metis append_butlast_last_id)
  with assms(1) have "x \<notin> set xs" by simp
  then have "map (\<lambda>tgid. case ((locator (manager w))(x \<mapsto> tg)) tgid of
                 None \<Rightarrow> 0 | Some tg \<Rightarrow> GetNextTupleSlot tg) xs =
             map (\<lambda>tgid. case locator (manager w) tgid of
                 None \<Rightarrow> 0 | Some tg \<Rightarrow> GetNextTupleSlot tg) xs"
    by (intro map_cong) auto
  with xs assms(3,4) show ?thesis by (simp add: next_slots_def)
qed

lemma next_slots_append:
  assumes "tgid \<notin> set (tile_groups (table w))"
    and "tile_groups (table w') = tile_groups (table w) @ [tgid]"
    and "locator (manager w') = (locator (manager w))(tgid \<mapsto> tg)"
  shows "next_slots w' = next_slots w @ [GetNextTupleSlot tg]"
proof -
  have "map (\<lambda>i. case ((locator (manager w))(tgid \<mapsto> tg)) i of
                 None \<Rightarrow> 0 | Some tg \<Rightarrow> GetNextTupleSlot tg) (tile_groups (table w)) =
        map (\<lambda>i. case locator (manager w) i of
                 None \<Rightarrow> 0 | Some tg \<Rightarrow> GetNextTupleSlot tg) (tile_groups (table w))"
    using assms(1) by (intro map_cong) auto
  with assms(2,3) show ?thesis by (simp add: next_slots_def)
qed

lemma next_slots_same:
  "tile_groups (table w') = tile_groups (table w) \<Longrightarrow> locator (manager w') = locator (manager w)
     \<Longrightarrow> next_slots w' = next_slots w"
  by (simp add: next_slots_def)

lemma registered_last:
  assumes "registered w" "tile_groups (table w) \<noteq> []"
  shows "\<exists>tg. GetTileGroup w (GetTileGroupCount w - 1) = Some tg \<and>
           locator (manager w) (last (tile_groups (table w))) = Some tg \<and>
           tile_group_id tg = last (tile_groups (table w)) \<and>
           num_tuple_slots (tile_group_header tg) = tuples_per_tilegroup (table w) \<and>
           tg_num_tuple_slots tg = tuples_per_tilegroup (table w) \<and>
           next_tuple_slot (tile_group_header tg) \<le> tuples_per_tilegroup (table w) \<and>
           last (next_slots w) = next_tuple_slot (tile_group_header tg)"
proof -
  have "last (tile_groups (table w)) \<in> set (tile_groups (table w))" using assms(2) by simp
  with assms(1) have "registered_at w (last (tile_groups (table w)))"
    unfolding registered_def by blast
  then obtain tg where tg: "locator (manager w) (last (tile_groups (table w))) = Some tg"
     "tile_group_id tg = last (tile_groups (table w))"
     "num_tuple_slots (tile_group_header tg) = tuples_per_tilegroup (table w)"
     "tg_num_tuple_slots tg = tuples_per_tilegroup (table w)"
     "next_tuple_slot (tile_group_header tg) \<le> tuples_per_tilegroup (table w)"
    unfolding registered_at_def by blast
  have "GetTileGroup w (GetTileGroupCount w - 1) = Some tg"
    using assms(2) tg(1)
    by (simp add: GetTileGroup_def GetTileGroupCount_def nth_opt_def GetTileGroupById_def
          Manager_GetTileGroup_def last_conv_nth)
  moreover have "last (next_slots w) = next_tuple_slot (tile_group_header tg)"
    using assms(2) tg(1) by (simp add: next_slots_def last_map GetNextTupleSlot_def)
  ultimately show ?thesis using tg by blast
qed

lemma registered_at_other:
  assumes "registered_at w tgid" "table w' = table w \<or> (\<exists>tgs. table w' = (table w)\<lparr>tile_groups := tgs\<rparr>)"
    "locator (manager w') tgid = locator (manager w) tgid" "oid (manager w) \<le> oid (manager w')"
  shows "registered_at w' tgid"
proof -
  have "tuples_per_tilegroup (table w') = tuples_per_tilegroup (table w)"
    using assms(2) by auto
  with assms(1,3,4) show ?thesis unfolding registered_at_def by auto
qed

lemma filled_same:
  assumes "filled w" "table w' = table w" "locator (manager w') = locator (manager w)"
    "oid (manager w) \<le> oid (manager w')"
  shows "filled w'"
proof -
  have "next_slots w' = next_slots w" using assms(2,3) by (simp add: next_slots_def)
  moreover have "registered w'"
    using assms registered_at_other [of w _ w']
    unfolding filled_def registered_def by auto
  ultimately show ?thesis using assms(1,2) by (simp add: filled_def)
qed

lemma all_slots_full:
  assumes "xs \<noteq> []" "\<forall>n \<in> set (butlast xs). n = (c::nat)" "last xs = c"
  shows "\<forall>n \<in> set xs. n = c"
proof -
  have "xs = butlast xs @ [last xs]" using assms(1) by simp
  then have "set xs = set (butlast xs) \<union> {last xs}"
    by (metis list.set(1) list.simps(15) set_append Un_insert_right sup_bot.right_neutral)
  with assms(2,3) show ?thesis by auto
qed

lemma filled_append:
  assumes f: "filled w" and full: "last (next_slots w) = tuples_per_tilegroup (table w)"
    and t: "table w' = (table w)\<lparr>tile_groups := tile_groups (table w) @ [oid (manager w) + 1]\<rparr>"
    and l: "locator (manager w') = (locator (manager w))(oid (manager w) + 1 \<mapsto> tg)"
    and o: "oid (manager w') = oid (manager w) + 1"
    and tg: "tile_group_id tg = oid (manager w) + 1"
       "tile_group_header tg = TileGroupHeader_new (tuples_per_tilegroup (table w))"
       "tg_num_tuple_slots tg = tuples_per_tilegroup (table w)"
  shows "filled w' \<and> next_slots w' = next_slots w @ [0]"
proof -
  from f have reg: "registered w" and ne: "tile_groups (table w) \<noteq> []"
    and bl: "\<forall>n \<in> set (butlast (next_slots w)). n = tuples_per_tilegroup (table w)"
    by (auto simp: filled_def)
  have le: "\<forall>tgid \<in> set (tile_groups (table w)). tgid \<le> oid (manager w)"
    using reg unfolding registered_def registered_at_def by blast
  have fresh: "oid (manager w) + 1 \<notin> set (tile_groups (table w))"
    using le by fastforce
  have ns: "next_slots w' = next_slots w @ [0]"
    using next_slots_append [OF fresh, of w' tg] t l tg(2)
    by (simp add: GetNextTupleSlot_def TileGroupHeader_new_def)
  have "next_slots w \<noteq> []" using ne by (simp add: next_slots_def)
  from all_slots_full [OF this bl full]
  have all: "\<forall>n \<in> set (next_slots w). n = tuples_per_tilegroup (table w)" .
  have new: "registered_at w' (oid (manager w) + 1)"
    using t l o tg by (simp add: registered_at_def TileGroupHeader_new_def)
  have old: "registered_at w' tgid" if a: "tgid \<in> set (tile_groups (table w))" for tgid
  proof -
    from a fresh have "tgid \<noteq> oid (manager w) + 1" by auto
    then have "locator (manager w') tgid = locator (manager w) tgid" using l by simp
    moreover have "registered_at w tgid" using reg a unfolding registered_def by blast
    ultimately show ?thesis using registered_at_other [of w tgid w'] t o by auto
  qed
  have "registered w'"
    using reg fresh t new old unfolding registered_def by auto
  moreover have "tile_groups (table w') \<noteq> []" using t by simp
  moreover have "\<forall>n \<in> set (butlast (next_slots w')). n = tuples_per_tilegroup (table w')"
    using ns all t by simp
  ultimately show ?thesis using ns by (simp add: filled_def)
qed

lemma filled_claim:
  assumes f: "filled w"
    and g: "locator (manager w) (last (tile_groups (table w))) = Some tg"
    and t: "table w' = table w"
    and l: "locator (manager w') = (locator (manager w))(last (tile_groups (table w)) \<mapsto> tg')"
    and o: "oid (manager w') = oid (manager w)"
    and tg': "tile_group_id tg' = tile_group_id tg"
       "tile_group_header tg' = (tile_group_header tg)\<lparr>next_tuple_slot := slot + 1\<rparr>"
       "tg_num_tuple_slots tg' = tg_num_tuple_slots tg"
       "slot < num_tuple_slots (tile_group_header tg)"
       "slot = next_tuple_slot (tile_group_header tg)"
  shows "filled w' \<and> next_slots w' = butlast (next_slots w) @ [slot + 1] \<and>
         next_slots w = butlast (next_slots w) @ [slot]"
proof -
  from f have reg: "registered w" and ne: "tile_groups (table w) \<noteq> []"
    and bl: "\<forall>n \<in> set (butlast (next_slots w)). n = tuples_per_tilegroup (table w)"
    by (auto simp: filled_def)
  have d: "distinct (tile_groups (table w))" using reg by (simp add: registered_def)
  have ns: "next_slots w' = butlast (next_slots w) @ [slot + 1]"
    using next_slots_update_last [OF d ne t l] tg'(2) by (simp add: GetNextTupleSlot_def)
  have "next_slots w \<noteq> []" using ne by (simp add: next_slots_def)
  moreover have "last (next_slots w) = slot"
    using ne g tg'(5) by (simp add: next_slots_def last_map GetNextTupleSlot_def)
  ultimately have ns0: "next_slots w = butlast (next_slots w) @ [slot]"
    by (metis append_butlast_last_id)
  have lastin: "last (tile_groups (table w)) \<in> set (tile_groups (table w))" using ne by simp
  then have "registered_at w (last (tile_groups (table w)))"
    using reg unfolding registered_def by blast
  then have new: "registered_at w' (last (tile_groups (table w)))"
    using g t l o tg' unfolding registered_at_def by auto
  have old: "registered_at w' tgid"
    if a: "tgid \<in> set (tile_groups (table w))" "tgid \<noteq> last (tile_groups (table w))" for tgid
  proof -
    have "locator (manager w') tgid = locator (manager w) tgid" using l a(2) by simp
    moreover have "registered_at w tgid" using reg a(1) unfolding registered_def by blast
    ultimately show ?thesis using registered_at_other [of w tgid w'] t o by auto
  qed
  have "registered w'"
    using d t new old unfolding registered_def by auto
  moreover have "\<forall>n \<in> set (butlast (next_slots w')). n = tuples_per_tilegroup (table w')"
    using ns bl t by simp
  ultimately show ?thesis using ns ns0 ne t by (simp add: filled_def)
qed

lemma GetTupleSlot_loop_filled:
  assumes "filled w" "GetTupleSlot_loop fuel tuple w = Some (loc, w')"
  shows "filled w' \<and> sum_list (next_slots w') = sum_list (next_slots w) + 1 \<and>
         1 \<le> last (next_slots w') \<and>
         (\<exists>tgs. table w' = (table w)\<lparr>tile_groups := tgs\<rparr>)"
  using assms
proof (induction fuel arbitrary: w)
  case 0
  then show ?case by simp
next
  case (Suc fuel)
  from Suc.prems(1) have reg: "registered w" and ne: "tile_groups (table w) \<noteq> []"
    by (auto simp: filled_def)
  from registered_last [OF reg ne] obtain tg where
    tg: "GetTileGroup w (GetTileGroupCount w - 1) = Some tg"
       "locator (manager w) (last (tile_groups (table w))) = Some tg"
       "tile_group_id tg = last (tile_groups (table w))"
       "num_tuple_slots (tile_group_header tg) = tuples_per_tilegroup (table w)"
       "next_tuple_slot (tile_group_header tg) \<le> tuples_per_tilegroup (table w)"
       "last (next_slots w) = next_tuple_slot (tile_group_header tg)"
    by blast
  define w1 where "w1 tg' = w\<lparr>manager := AddTileGroup (tile_group_id tg) tg' (manager w)\<rparr>" for tg'
  have eq: "GetTupleSlot_loop (Suc fuel) tuple w =
      TileGroup_InsertTuple tuple tg \<bind> (\<lambda>(slot, tg'). case slot of
          None \<Rightarrow> do { (_, w2) \<leftarrow> AddDefaultTileGroup (w1 tg'); GetTupleSlot_loop fuel tuple w2 }
        | Some s \<Rightarrow> Some (\<lparr>block = tile_group_id tg', offset = s\<rparr>, w1 tg'))"
    using ne tg(1) unfolding w1_def by (simp add: GetTileGroupCount_def Let_def)
  from Suc.prems(2) [unfolded eq] obtain p where
    p: "TileGroup_InsertTuple tuple tg = Some p" and
    rest0: "(case p of (slot, tg') \<Rightarrow> (case slot of
          None \<Rightarrow> do { (_, w2) \<leftarrow> AddDefaultTileGroup (w1 tg'); GetTupleSlot_loop fuel tuple w2 }
        | Some s \<Rightarrow> Some (\<lparr>block = tile_group_id tg', offset = s\<rparr>, w1 tg'))) = Some (loc, w')"
    by (cases "TileGroup_InsertTuple tuple tg") auto
  obtain slot tg' where pp: "p = (slot, tg')" by (cases p)
  have ins: "TileGroup_InsertTuple tuple tg = Some (slot, tg')" using p pp by simp
  have rest: "(case slot of
          None \<Rightarrow> do { (_, w2) \<leftarrow> AddDefaultTileGroup (w1 tg'); GetTupleSlot_loop fuel tuple w2 }
        | Some s \<Rightarrow> Some (\<lparr>block = tile_group_id tg', offset = s\<rparr>, w1 tg')) = Some (loc, w')"
    using rest0 pp by simp
  show ?case
  proof (cases slot)
    case None
    from InsertTuple_full [OF ins [unfolded None]] have same: "tg' = tg"
      and full: "\<not> next_tuple_slot (tile_group_header tg) < num_tuple_slots (tile_group_header tg)"
      by auto
    have l1: "locator (manager (w1 tg')) = locator (manager w)"
      using tg(2,3) same by (auto simp: w1_def AddTileGroup_def)
    have t1: "table (w1 tg') = table w" and o1: "oid (manager (w1 tg')) = oid (manager w)"
      by (simp_all add: w1_def AddTileGroup_def)
    have f1: "filled (w1 tg')" using filled_same [OF Suc.prems(1) t1 l1] o1 by simp
    have n1: "next_slots (w1 tg') = next_slots w" using t1 l1 by (simp add: next_slots_def)
    from rest None obtain q where q: "AddDefaultTileGroup (w1 tg') = Some q"
      and loop0: "(case q of (_, w2) \<Rightarrow> GetTupleSlot_loop fuel tuple w2) = Some (loc, w')"
      by (cases "AddDefaultTileGroup (w1 tg')") auto
    obtain r w2 where qq: "q = (r, w2)" by (cases q)
    have add: "AddDefaultTileGroup (w1 tg') = Some (r, w2)" using q qq by simp
    have loop: "GetTupleSlot_loop fuel tuple w2 = Some (loc, w')" using loop0 qq by simp
    from AddDefaultTileGroup_cases [OF add]
    have o2: "oid (manager w2) = oid (manager (w1 tg')) + 1"
      and c2: "(r = None \<and> table w2 = table (w1 tg') \<and> locator (manager w2) = locator (manager (w1 tg'))) \<or>
          (\<exists>tg. r = Some (oid (manager (w1 tg')) + 1) \<and>
             table w2 = (table (w1 tg'))\<lparr>tile_groups := tile_groups (table (w1 tg')) @ [oid (manager (w1 tg')) + 1]\<rparr> \<and>
             locator (manager w2) = (locator (manager (w1 tg')))(oid (manager (w1 tg')) + 1 \<mapsto> tg) \<and>
             tile_group_id tg = oid (manager (w1 tg')) + 1 \<and>
             tile_group_header tg = TileGroupHeader_new (tuples_per_tilegroup (table (w1 tg'))) \<and>
             tg_num_tuple_slots tg = tuples_per_tilegroup (table (w1 tg')))"
      by blast+
    have "filled w2 \<and> sum_list (next_slots w2) = sum_list (next_slots w) \<and>
          (\<exists>tgs. table w2 = (table w)\<lparr>tile_groups := tgs\<rparr>)"
    proof -
      from c2 consider
        (unchanged) "table w2 = table (w1 tg')" "locator (manager w2) = locator (manager (w1 tg'))"
      | (added) ntg where
          "table w2 = (table (w1 tg'))\<lparr>tile_groups := tile_groups (table (w1 tg')) @ [oid (manager (w1 tg')) + 1]\<rparr>"
          "locator (manager w2) = (locator (manager (w1 tg')))(oid (manager (w1 tg')) + 1 \<mapsto> ntg)"
          "tile_group_id ntg = oid (manager (w1 tg')) + 1"
          "tile_group_header ntg = TileGroupHeader_new (tuples_per_tilegroup (table (w1 tg')))"
          "tg_num_tuple_slots ntg = tuples_per_tilegroup (table (w1 tg'))"
        by blast
      then show ?thesis
      proof cases
        case unchanged
        have "filled w2" using filled_same [OF f1 unchanged] o2 by simp
        moreover have "next_slots w2 = next_slots w" using unchanged n1 by (simp add: next_slots_def)
        moreover have "table w2 = (table w)\<lparr>tile_groups := tile_groups (table w)\<rparr>"
          using unchanged(1) t1 by simp
        ultimately show ?thesis by metis
      next
        case added
        have lastfull: "last (next_slots (w1 tg')) = tuples_per_tilegroup (table (w1 tg'))"
          using n1 t1 tg(4,5,6) full by simp
        from filled_append [OF f1 lastfull added(1,2) o2 added(3,4,5)]
        have "filled w2" "next_slots w2 = next_slots (w1 tg') @ [0]" by auto
        moreover have "table w2 = (table w)\<lparr>tile_groups := tile_groups (table w) @ [oid (manager w) + 1]\<rparr>"
          using added(1) t1 o1 by simp
        ultimately show ?thesis using n1 by auto
      qed
    qed
    then have f2: "filled w2" and s2: "sum_list (next_slots w2) = sum_list (next_slots w)"
      and t2: "\<exists>tgs. table w2 = (table w)\<lparr>tile_groups := tgs\<rparr>" by auto
    from Suc.IH [OF f2 loop] s2 t2 show ?thesis by auto
  next
    case (Some s)
    from InsertTuple_slot [OF ins [unfolded Some]]
    have sl: "s = next_tuple_slot (tile_group_header tg)"
      "s < num_tuple_slots (tile_group_header tg)"
      "tile_group_header tg' = (tile_group_header tg)\<lparr>next_tuple_slot := s + 1\<rparr>"
      "tile_group_id tg' = tile_group_id tg" "tg_num_tuple_slots tg' = tg_num_tuple_slots tg"
      by auto
    from rest Some have w': "w' = w1 tg'" by simp
    have t1: "table w' = table w" and o1: "oid (manager w') = oid (manager w)"
      and l1: "locator (manager w') = (locator (manager w))(last (tile_groups (table w)) \<mapsto> tg')"
      using tg(3) by (simp_all add: w' w1_def AddTileGroup_def)
    from filled_claim [OF Suc.prems(1) tg(2) t1 l1 o1 sl(4,3,5,2,1)]
    have f: "filled w'" and n': "next_slots w' = butlast (next_slots w) @ [s + 1]"
      and n: "next_slots w = butlast (next_slots w) @ [s]" by auto
    have "sum_list (next_slots w') = sum_list (next_slots w) + 1"
      by (subst n', subst (2) n) simp
    moreover have "1 \<le> last (next_slots w')" by (subst n') simp
    moreover have "table w' = (table w)\<lparr>tile_groups := tile_groups (table w)\<rparr>" using t1 by simp
    ultimately show ?thesis using f by metis
  qed
qed

lemma filled_table_fields:
  assumes "filled w" "manager w' = manager w" "tile_groups (table w') = tile_groups (table w)"
    "tuples_per_tilegroup (table w') = tuples_per_tilegroup (table w)"
  shows "filled w' \<and> next_slots w' = next_slots w"
proof -
  have n: "next_slots w' = next_slots w" using assms(2,3) by (simp add: next_slots_def)
  have "registered_at w' tgid = registered_at w tgid" for tgid
    using assms(2,4) by (simp add: registered_at_def)
  then have "registered w' = registered w" using assms(3) by (simp add: registered_def)
  then show ?thesis using assms n by (simp add: filled_def)
qed

lemma InsertInIndexes_frame:
  "InsertInIndexes tuple loc w = Some (ok, w') \<Longrightarrow>
     ok \<and> manager w' = manager w \<and> (\<exists>ix. table w' = (table w)\<lparr>indexes := ix\<rparr>)"
  by (auto simp: InsertInIndexes_def split: bind_splits)

lemma InsertTuple_counted:
  assumes c: "counted w" and i: "InsertTuple fuel tuple w = Some (Some loc, w')"
  shows "counted w' \<and> tuple_count_exact (table w') = tuple_count_exact (table w) + 1 \<and>
         tuples_per_tilegroup (table w') = tuples_per_tilegroup (table w)"
proof -
  from i obtain p where p: "GetTupleSlot fuel tuple True w = Some p"
    and r0: "(case p of (location, w1) \<Rightarrow> (case location of
       None \<Rightarrow> Some (None, w1)
     | Some loc \<Rightarrow> do {
         (ok, w2) \<leftarrow> InsertInIndexes tuple loc w1;
         if ok = False then Some (None, w2)
         else Some (Some loc,
           w2\<lparr>table := (table w2)
             \<lparr>tuple_count_exact := tuple_count_exact (table w2) + 1,
              indexes := map (\<lambda>index. index\<lparr>index_number_of_tuples :=
                                index_number_of_tuples index + 1\<rparr>) (indexes (table w2))\<rparr>\<rparr>)
       })) = Some (Some loc, w')"
    unfolding InsertTuple_def by (cases "GetTupleSlot fuel tuple True w") auto
  obtain location w1 where pp: "p = (location, w1)" by (cases p)
  from r0 pp obtain l where l: "location = Some l" by (cases location) auto
  from p pp l have loop: "GetTupleSlot_loop fuel tuple w = Some (l, w1)"
    by (auto simp: GetTupleSlot_def split: bind_splits if_splits)
  from c have f: "filled w" and s: "sum_list (next_slots w) = tuple_count_exact (table w)"
    by (auto simp: counted_def)
  from GetTupleSlot_loop_filled [OF f loop] obtain tgs where
    f1: "filled w1" and s1: "sum_list (next_slots w1) = sum_list (next_slots w) + 1"
    and l1: "1 \<le> last (next_slots w1)" and t1: "table w1 = (table w)\<lparr>tile_groups := tgs\<rparr>"
    by blast
  from r0 pp l obtain q where q: "InsertInIndexes tuple l w1 = Some q"
    and r1: "(case q of (ok, w2) \<Rightarrow> if ok = False then Some (None, w2)
         else Some (Some l,
           w2\<lparr>table := (table w2)
             \<lparr>tuple_count_exact := tuple_count_exact (table w2) + 1,
              indexes := map (\<lambda>index. index\<lparr>index_number_of_tuples :=
                                index_number_of_tuples index + 1\<rparr>) (indexes (table w2))\<rparr>\<rparr>))
         = Some (Some loc, w')"
    by (cases "InsertInIndexes tuple l w1") auto
  obtain ok w2 where qq: "q = (ok, w2)" by (cases q)
  from InsertInIndexes_frame [OF q [unfolded qq]] obtain ix where
    ok: "ok" and m2: "manager w2 = manager w1" and t2: "table w2 = (table w1)\<lparr>indexes := ix\<rparr>"
    by blast
  from r1 qq ok have w': "w' = w2\<lparr>table := (table w2)
             \<lparr>tuple_count_exact := tuple_count_exact (table w2) + 1,
              indexes := map (\<lambda>index. index\<lparr>index_number_of_tuples :=
                                index_number_of_tuples index + 1\<rparr>) (indexes (table w2))\<rparr>\<rparr>"
    by simp
  have "manager w' = manager w1" "tile_groups (table w') = tile_groups (table w1)"
    "tuples_per_tilegroup (table w') = tuples_per_tilegroup (table w1)"
    using w' m2 t2 by simp_all
  from filled_table_fields [OF f1 this]
  have f': "filled w'" and n': "next_slots w' = next_slots w1" by auto
  have cnt: "tuple_count_exact (table w') = tuple_count_exact (table w) + 1"
    using w' t2 t1 by simp
  have "tuples_per_tilegroup (table w') = tuples_per_tilegroup (table w)"
    using w' t2 t1 by simp
  then show ?thesis using f' n' s1 s l1 cnt by (simp add: counted_def)
qed

lemma AddDefaultTileGroup_first:
  assumes "AddDefaultTileGroup w = Some (r, w')" "tile_groups (table w) = []"
  shows "\<exists>tg. table w' = (table w)\<lparr>tile_groups := [oid (manager w) + 1]\<rparr> \<and>
             locator (manager w') = (locator (manager w))(oid (manager w) + 1 \<mapsto> tg) \<and>
             oid (manager w') = oid (manager w) + 1 \<and>
             tile_group_id tg = oid (manager w) + 1 \<and>
             tile_group_header tg = TileGroupHeader_new (tuples_per_tilegroup (table w)) \<and>
             tg_num_tuple_slots tg = tuples_per_tilegroup (table w)"
  using assms
  by (auto simp: AddDefaultTileGroup_def GetTileGroupWithLayout_def GetNextOid_def AddTileGroup_def
        TileGroupFactory_GetTileGroup_def Let_def split: bind_splits if_splits prod.splits)

lemma DataTable_new_counted:
  assumes "DataTable_new s name c adapt m mode hyadapt = Some w"
  shows "counted w \<and> tuple_count_exact (table w) = 0 \<and> tuples_per_tilegroup (table w) = c"
proof -
  from assms obtain w0 r where a: "AddDefaultTileGroup w0 = Some (r, w)"
    and t0: "tile_groups (table w0) = []" "tuple_count_exact (table w0) = 0"
            "tuples_per_tilegroup (table w0) = c"
    unfolding DataTable_new_def Let_def by (auto simp: map_option_case split: option.splits)
  from AddDefaultTileGroup_first [OF a t0(1)] obtain tg where
    t: "table w = (table w0)\<lparr>tile_groups := [oid (manager w0) + 1]\<rparr>"
    and l: "locator (manager w) = (locator (manager w0))(oid (manager w0) + 1 \<mapsto> tg)"
    and o: "oid (manager w) = oid (manager w0) + 1"
    and tg: "tile_group_id tg = oid (manager w0) + 1"
       "tile_group_header tg = TileGroupHeader_new (tuples_per_tilegroup (table w0))"
       "tg_num_tuple_slots tg = tuples_per_tilegroup (table w0)"
    by blast
  have n: "next_slots w = [0]"
    using t l tg by (simp add: next_slots_def GetNextTupleSlot_def TileGroupHeader_new_def)
  have "registered w"
    using t l o tg by (simp add: registered_def registered_at_def TileGroupHeader_new_def)
  then have "filled w" using n t by (simp add: filled_def)
  then show ?thesis using n t t0 by (simp add: counted_def)
qed

lemma insert_tuples_counted:
  "counted w \<Longrightarrow> insert_tuples fuel ts w = Some w' \<Longrightarrow>
     counted w' \<and> tuple_count_exact (table w') = tuple_count_exact (table w) + length ts \<and>
     tuples_per_tilegroup (table w') = tuples_per_tilegroup (table w)"
proof (induction ts arbitrary: w)
  case Nil
  then show ?case by simp
next
  case (Cons t ts)
  from Cons.prems(2) obtain p where p: "InsertTuple fuel t w = Some p"
    and r: "(case p of (location, w1) \<Rightarrow>
              (case location of None \<Rightarrow> None | Some _ \<Rightarrow> insert_tuples fuel ts w1)) = Some w'"
    by (cases "InsertTuple fuel t w") auto
  obtain location w1 where pp: "p = (location, w1)" by (cases p)
  from r pp obtain loc where loc: "location = Some loc" by (cases location) auto
  from r pp loc have rest: "insert_tuples fuel ts w1 = Some w'" by simp
  from InsertTuple_counted [OF Cons.prems(1) p [unfolded pp loc]]
  have c1: "counted w1" and k1: "tuple_count_exact (table w1) = tuple_count_exact (table w) + 1"
    and tp: "tuples_per_tilegroup (table w1) = tuples_per_tilegroup (table w)" by auto
  from Cons.IH [OF c1 rest] k1 tp show ?case by simp
qed

lemma sum_list_all_same:
  "\<forall>x \<in> set xs. x = (c::nat) \<Longrightarrow> sum_list xs = length xs * c"
  by (induction xs) auto

lemma ceiling_tile_groups:
  assumes "l \<le> c" "n = 0 \<or> 1 \<le> l"
  shows "Suc n = max 1 (nat \<lceil>real (n * c + l) / real c\<rceil>)"
proof (cases "c = 0")
  case True
  with assms show ?thesis by auto
next
  case False
  then have c: "0 < real c" by simp
  have eq: "real (n * c + l) / real c = real n + real l / real c"
    using False by (simp add: field_simps)
  have le: "real l / real c \<le> 1" using assms(1) c by simp
  show ?thesis
  proof (cases "n = 0")
    case True
    have "\<lceil>real l / real c\<rceil> \<le> 1" using le by (simp add: ceiling_le_iff)
    then have "nat \<lceil>real l / real c\<rceil> \<le> 1" by simp
    then have "max 1 (nat \<lceil>real l / real c\<rceil>) = 1" by (rule max_absorb1)
    moreover have "real (n * c + l) / real c = real l / real c" using True by simp
    ultimately show ?thesis using True by simp
  next
    case False
    with assms(2) have "0 < real l / real c" using c by simp
    with le have "\<lceil>real n + real l / real c\<rceil> = int n + 1"
      by (intro ceiling_unique) auto
    then have "nat \<lceil>real (n * c + l) / real c\<rceil> = Suc n" using eq by simp
    then show ?thesis by simp
  qed
qed

lemma counted_tile_group_count:
  assumes "counted w"
  shows "length (tile_groups (table w)) =
     max 1 (nat \<lceil>real (tuple_count_exact (table w)) / real (tuples_per_tilegroup (table w))\<rceil>)"
proof -
  let ?xs = "next_slots w" and ?c = "tuples_per_tilegroup (table w)"
  from assms have f: "filled w" and s: "sum_list ?xs = tuple_count_exact (table w)"
    and one: "length (tile_groups (table w)) = 1 \<or> 1 \<le> last ?xs"
    by (auto simp: counted_def)
  from f have reg: "registered w" and ne: "tile_groups (table w) \<noteq> []"
    and bl: "\<forall>n \<in> set (butlast ?xs). n = ?c"
    by (auto simp: filled_def)
  from registered_last [OF reg ne] have le: "last ?xs \<le> ?c" by auto
  have len: "length ?xs = length (tile_groups (table w))" by (simp add: next_slots_def)
  with ne have xne: "?xs \<noteq> []" by auto
  then have "?xs = butlast ?xs @ [last ?xs]" by simp
  then have "sum_list ?xs = sum_list (butlast ?xs) + last ?xs"
    by (metis sum_list.Cons sum_list.Nil sum_list.append add.right_neutral)
  define m where "m = length ?xs - 1"
  have lt: "length (tile_groups (table w)) = Suc m" using xne len by (cases ?xs) (auto simp: m_def)
  have "length (butlast ?xs) = m" by (simp add: m_def)
  with sum_list_all_same [OF bl] s \<open>sum_list ?xs = sum_list (butlast ?xs) + last ?xs\<close>
  have k: "tuple_count_exact (table w) = m * ?c + last ?xs" by simp
  have "m = 0 \<or> 1 \<le> last ?xs" using one lt by auto
  from ceiling_tile_groups [OF le this]
  show ?thesis by (simp only: lt k)
qed

text \<open>
  Claim C1. On a fresh table with \<open>c\<close> tuples per tile group, after any sequence of
  \<open>k\<close> successful \<^verbatim>\<open>InsertTuple\<close> calls the \<open>next_slot\<close> counters of the table's
  tile groups sum to \<open>k\<close>, \<^verbatim>\<open>tuple_count_exact\<close> is \<open>k\<close>, and the table holds
  \<open>max 1 \<lceil>k / c\<rceil>\<close> tile groups.
\<close>

theorem insert_tuple_counts:
  assumes "DataTable_new s name c adapt m mode hyadapt = Some w0"
    and "insert_tuples fuel ts w0 = Some w"
  shows "sum_list (next_slots w) = length ts \<and>
         tuple_count_exact (table w) = length ts \<and>
         length (tile_groups (table w)) = max 1 (nat \<lceil>real (length ts) / real c\<rceil>)"
proof -
  from DataTable_new_counted [OF assms(1)]
  have c0: "counted w0" and k0: "tuple_count_exact (table w0) = 0"
    and t0: "tuples_per_tilegroup (table w0) = c" by auto
  from insert_tuples_counted [OF c0 assms(2)] k0 t0
  have c: "counted w" and k: "tuple_count_exact (table w) = length ts"
    and t: "tuples_per_tilegroup (table w) = c" by auto
  from c have "sum_list (next_slots w) = tuple_count_exact (table w)" by (simp add: counted_def)
  with counted_tile_group_count [OF c] k t show ?thesis by simp
qed

theorem insert_tuple_counts_witness:
  "\<exists>w0 w. DataTable_new scenario_schema ''T'' 2 False empty_catalog LAYOUT_ROW [] = Some w0 \<and>
     insert_tuples 2 scenario_rows w0 = Some w \<and>
     next_slots w = [2, 1] \<and> tuple_count_exact (table w) = 3 \<and>
     length (tile_groups (table w)) = 2"
proof -
  have "case DataTable_new scenario_schema ''T'' 2 False empty_catalog LAYOUT_ROW [] of
          None \<Rightarrow> False
        | Some w0 \<Rightarrow> (case insert_tuples 2 scenario_rows w0 of
                       None \<Rightarrow> False | Some w \<Rightarrow> next_slots w = [2, 1])"
    by code_simp
  then obtain w0 w where
    a: "DataTable_new scenario_schema ''T'' 2 False empty_catalog LAYOUT_ROW [] = Some w0"
    and b: "insert_tuples 2 scenario_rows w0 = Some w" and c: "next_slots w = [2, 1]"
    by (auto split: option.splits)
  from insert_tuple_counts [OF a b] c show ?thesis
    using a b by (simp add: scenario_rows_def)
qed

section \<open>Layout transformation keeps identity and data\<close>

lemma copy_rows_effect:
  "copy_rows orig oc nc rows t = Some t' \<Longrightarrow>
     tile_schema t' = tile_schema t \<and> tile_slots t' = tile_slots t \<and>
     (\<forall>r. tile_data t' r nc = (if r \<in> set rows then tile_data orig r oc else tile_data t r nc)) \<and>
     (\<forall>r c. c \<noteq> nc \<longrightarrow> tile_data t' r c = tile_data t r c) \<and>
     (\<forall>r \<in> set rows. r < tile_slots orig \<and> oc < length (tile_schema orig) \<and>
                      r < tile_slots t \<and> nc < length (tile_schema t))"
proof (induction rows arbitrary: t)
  case Nil
  then show ?case by simp
next
  case (Cons r rows)
  from Cons.prems obtain val t1 where
    g: "Tile_GetValue orig r oc = Some val" and s: "Tile_SetValue val r nc t = Some t1"
    and rest: "copy_rows orig oc nc rows t1 = Some t'"
    by (auto split: bind_splits)
  from g have gv: "val = tile_data orig r oc" "r < tile_slots orig" "oc < length (tile_schema orig)"
    by (auto simp: Tile_GetValue_def split: if_splits)
  from s have sv: "r < tile_slots t" "nc < length (tile_schema t)"
    "t1 = t\<lparr>tile_data := (tile_data t)(r := (tile_data t r)(nc := val))\<rparr>"
    by (auto simp: Tile_SetValue_def split: if_splits)
  from Cons.IH [OF rest] sv gv show ?case by auto
qed

lemma copy_column_effect:
  assumes "copy_column orig cap c new = Some new'"
  shows "column_map new' = column_map new \<and> tile_group_id new' = tile_group_id new \<and>
         tg_num_tuple_slots new' = tg_num_tuple_slots new \<and>
         (\<forall>s < cap. TileGroup_GetValue new' s c = TileGroup_GetValue orig s c \<and>
                    TileGroup_GetValue orig s c \<noteq> None) \<and>
         (\<forall>c' s. LocateTileAndColumn new c' \<noteq> LocateTileAndColumn new c \<longrightarrow>
                    TileGroup_GetValue new' s c' = TileGroup_GetValue new s c')"
proof -
  from assms obtain ot oc nt nc orig_tile new_tile new_tile' where
    lo: "LocateTileAndColumn orig c = Some (ot, oc)" and
    ln: "LocateTileAndColumn new c = Some (nt, nc)" and
    go: "GetTile orig ot = Some orig_tile" and gn: "GetTile new nt = Some new_tile" and
    cr: "copy_rows orig_tile oc nc [0..<cap] new_tile = Some new_tile'" and
    new': "new' = new\<lparr>tiles := (tiles new)[nt := new_tile']\<rparr>"
    unfolding copy_column_def by (auto split: bind_splits)
  from gn have nt: "nt < length (tiles new)" "tiles new ! nt = new_tile"
    by (auto simp: GetTile_def nth_opt_def split: if_splits)
  from copy_rows_effect [OF cr] have
    sh: "tile_schema new_tile' = tile_schema new_tile" "tile_slots new_tile' = tile_slots new_tile"
    and wr: "\<And>r. tile_data new_tile' r nc =
               (if r \<in> set [0..<cap] then tile_data orig_tile r oc else tile_data new_tile r nc)"
    and fr: "\<And>r k. k \<noteq> nc \<Longrightarrow> tile_data new_tile' r k = tile_data new_tile r k"
    and bd: "\<And>r. r \<in> set [0..<cap] \<Longrightarrow> r < tile_slots orig_tile \<and> oc < length (tile_schema orig_tile) \<and>
                      r < tile_slots new_tile \<and> nc < length (tile_schema new_tile)"
    by auto
  have loc: "LocateTileAndColumn new' = LocateTileAndColumn new"
    by (rule ext) (simp add: new' LocateTileAndColumn_def)
  have gt: "GetTile new' nt = Some new_tile'" using nt by (simp add: new' GetTile_def nth_opt_def)
  have gto: "\<And>t. t \<noteq> nt \<Longrightarrow> GetTile new' t = GetTile new t"
    by (simp add: new' GetTile_def nth_opt_def)
  have copied: "TileGroup_GetValue new' s c = TileGroup_GetValue orig s c \<and>
                TileGroup_GetValue orig s c \<noteq> None" if "s < cap" for s
  proof -
    from that have "s \<in> set [0..<cap]" by simp
    from bd [OF this] wr [of s] this sh show ?thesis
      using lo ln go gt loc by (simp add: TileGroup_GetValue_def Tile_GetValue_def)
  qed
  have frame: "TileGroup_GetValue new' s c' = TileGroup_GetValue new s c'"
    if "LocateTileAndColumn new c' \<noteq> LocateTileAndColumn new c" for c' s
  proof (cases "LocateTileAndColumn new c'")
    case None
    then show ?thesis using loc by (simp add: TileGroup_GetValue_def)
  next
    case (Some p)
    obtain t k where p: "p = (t, k)" by (cases p)
    show ?thesis
    proof (cases "t = nt")
      case True
      with that Some p ln have "k \<noteq> nc" by auto
      from fr [OF this] show ?thesis
        using Some p True gt gn loc sh by (simp add: TileGroup_GetValue_def Tile_GetValue_def)
    next
      case False
      from gto [OF this] show ?thesis using Some p loc by (simp add: TileGroup_GetValue_def)
    qed
  qed
  show ?thesis using copied frame by (simp add: new')
qed

lemma copy_columns_effect:
  "copy_columns orig cap cols new = Some new' \<Longrightarrow> distinct cols \<Longrightarrow>
   inj_on (LocateTileAndColumn new) (set cols) \<Longrightarrow>
     column_map new' = column_map new \<and> tile_group_id new' = tile_group_id new \<and>
     tg_num_tuple_slots new' = tg_num_tuple_slots new \<and>
     (\<forall>c \<in> set cols. \<forall>s < cap. TileGroup_GetValue new' s c = TileGroup_GetValue orig s c \<and>
                    TileGroup_GetValue orig s c \<noteq> None) \<and>
     (\<forall>c' s. LocateTileAndColumn new c' \<notin> LocateTileAndColumn new ` set cols \<longrightarrow>
                    TileGroup_GetValue new' s c' = TileGroup_GetValue new s c')"
proof (induction cols arbitrary: new)
  case Nil
  then show ?case by simp
next
  case (Cons c cols)
  from Cons.prems(1) obtain new1 where
    one: "copy_column orig cap c new = Some new1" and
    rest: "copy_columns orig cap cols new1 = Some new'"
    by (auto split: bind_splits)
  from copy_column_effect [OF one] have
    cm: "column_map new1 = column_map new" and ids: "tile_group_id new1 = tile_group_id new"
      "tg_num_tuple_slots new1 = tg_num_tuple_slots new"
    and cp: "\<And>s. s < cap \<Longrightarrow> TileGroup_GetValue new1 s c = TileGroup_GetValue orig s c \<and>
                    TileGroup_GetValue orig s c \<noteq> None"
    and fr: "\<And>c' s. LocateTileAndColumn new c' \<noteq> LocateTileAndColumn new c \<Longrightarrow>
                    TileGroup_GetValue new1 s c' = TileGroup_GetValue new s c'"
    by auto
  have loc: "LocateTileAndColumn new1 = LocateTileAndColumn new"
    by (rule ext) (simp add: LocateTileAndColumn_def cm)
  from Cons.prems(2) have d: "distinct cols" and nin: "c \<notin> set cols" by auto
  from Cons.prems(3) have inj: "inj_on (LocateTileAndColumn new1) (set cols)"
    and notc: "LocateTileAndColumn new c \<notin> LocateTileAndColumn new ` set cols"
    using nin by (auto simp: loc inj_on_def)
  from Cons.IH [OF rest d inj] have
    cm': "column_map new' = column_map new1" and ids': "tile_group_id new' = tile_group_id new1"
      "tg_num_tuple_slots new' = tg_num_tuple_slots new1"
    and cp': "\<And>c' s. c' \<in> set cols \<Longrightarrow> s < cap \<Longrightarrow>
                 TileGroup_GetValue new' s c' = TileGroup_GetValue orig s c' \<and>
                 TileGroup_GetValue orig s c' \<noteq> None"
    and fr': "\<And>c' s. LocateTileAndColumn new c' \<notin> LocateTileAndColumn new ` set cols \<Longrightarrow>
                    TileGroup_GetValue new' s c' = TileGroup_GetValue new1 s c'"
    by (auto simp: loc)
  have first: "TileGroup_GetValue new' s c = TileGroup_GetValue orig s c \<and>
                    TileGroup_GetValue orig s c \<noteq> None" if "s < cap" for s
    using fr' [OF notc, of s] cp [OF that] by simp
  have frame: "TileGroup_GetValue new' s c' = TileGroup_GetValue new s c'"
    if "LocateTileAndColumn new c' \<notin> LocateTileAndColumn new ` set (c # cols)" for c' s
  proof -
    from that have a: "LocateTileAndColumn new c' \<notin> LocateTileAndColumn new ` set cols"
      and b: "LocateTileAndColumn new c' \<noteq> LocateTileAndColumn new c" by auto
    from fr' [OF a, of s] fr [OF b, of s] show ?thesis by simp
  qed
  show ?case using cm cm' ids ids' first cp' frame by auto
qed

text \<open>
  Claim C7. Whenever \<^verbatim>\<open>TransformTileGroup\<close> performs a transformation, with a default
  partition that sends no two columns to the same position, the table's list of tile-group
  ids is unchanged and the new tile group is registered under the old id, its header (hence
  its \<open>next_slot\<close>) is the old header, and every allocated slot reads, in every column, the
  value it read in the old tile group.
\<close>

theorem transform_preserves_identity_and_data:
  assumes run: "TransformTileGroup tile_group_offset theta w = Some (Some new_tg, w')"
    and old: "Manager_GetTileGroup (manager w) (tile_groups (table w) ! tile_group_offset) = Some old_tg"
    and inj: "distinct (map (map_of (default_partition (table w)))
                [0..<length (default_partition (table w))])"
  shows "tile_groups (table w') = tile_groups (table w) \<and>
         Manager_GetTileGroup (manager w') (tile_groups (table w) ! tile_group_offset) = Some new_tg \<and>
         tile_group_id new_tg = tile_group_id old_tg \<and>
         tile_group_header new_tg = tile_group_header old_tg \<and>
         GetNextTupleSlot new_tg = GetNextTupleSlot old_tg \<and>
         (\<forall>s < GetAllocatedTupleCount old_tg. \<forall>c < length (column_map old_tg).
            TileGroup_GetValue new_tg s c = TileGroup_GetValue old_tg s c \<and>
            TileGroup_GetValue old_tg s c \<noteq> None)"
proof -
  let ?dp = "default_partition (table w)"
  let ?tgid = "tile_groups (table w) ! tile_group_offset"
  from run old obtain new_schema new1 where
    sch: "TransformTileGroupSchema old_tg ?dp = Some new_schema" and
    set: "SetTransformedTileGroup old_tg
            (TileGroupFactory_GetTileGroup (tile_group_id old_tg) new_schema ?dp
               (GetAllocatedTupleCount old_tg)) = Some new_tg" and
    w': "w' = w\<lparr>manager := AddTileGroup ?tgid new_tg (manager w)\<rparr>"
    unfolding TransformTileGroup_def Let_def by (auto split: if_splits bind_splits)
  let ?new0 = "TileGroupFactory_GetTileGroup (tile_group_id old_tg) new_schema ?dp
               (GetAllocatedTupleCount old_tg)"
  have cm0: "column_map ?new0 = ?dp" and id0: "tile_group_id ?new0 = tile_group_id old_tg"
    by (simp_all add: TileGroupFactory_GetTileGroup_def)
  from set obtain new1 where
    len: "length ?dp = length (column_map old_tg)" and
    cp: "copy_columns old_tg (GetAllocatedTupleCount old_tg) [0..<length ?dp] ?new0 = Some new1" and
    new: "new_tg = new1\<lparr>tile_group_header := tile_group_header old_tg\<rparr>"
    unfolding SetTransformedTileGroup_def cm0 by (auto split: if_splits bind_splits)
  have loc0: "LocateTileAndColumn ?new0 = map_of ?dp"
    by (rule ext) (simp add: LocateTileAndColumn_def cm0)
  from inj have "inj_on (LocateTileAndColumn ?new0) (set [0..<length ?dp])"
    unfolding loc0 by (simp add: distinct_map)
  from copy_columns_effect [OF cp _ this] have
    id1: "tile_group_id new1 = tile_group_id ?new0" and
    vals: "\<And>c s. c \<in> set [0..<length ?dp] \<Longrightarrow> s < GetAllocatedTupleCount old_tg \<Longrightarrow>
       TileGroup_GetValue new1 s c = TileGroup_GetValue old_tg s c \<and>
       TileGroup_GetValue old_tg s c \<noteq> None"
    by auto
  have gv: "TileGroup_GetValue new_tg = TileGroup_GetValue new1"
    by (intro ext) (simp add: new TileGroup_GetValue_def LocateTileAndColumn_def GetTile_def)
  have "\<forall>s < GetAllocatedTupleCount old_tg. \<forall>c < length (column_map old_tg).
            TileGroup_GetValue new_tg s c = TileGroup_GetValue old_tg s c \<and>
            TileGroup_GetValue old_tg s c \<noteq> None"
    using vals len by (simp add: gv)
  moreover have "tile_group_id new_tg = tile_group_id old_tg" using new id1 id0 by simp
  moreover have "tile_group_header new_tg = tile_group_header old_tg" using new by simp
  moreover have "Manager_GetTileGroup (manager w') ?tgid = Some new_tg"
    by (simp add: w' Manager_GetTileGroup_def AddTileGroup_def)
  moreover have "tile_groups (table w') = tile_groups (table w)" by (simp add: w')
  ultimately show ?thesis by (simp add: GetNextTupleSlot_def)
qed

theorem transform_preserves_identity_and_data_witness:
  "\<exists>w old_tg new_tg w'. layout_world = Some w \<and>
     Manager_GetTileGroup (manager w) (tile_groups (table w) ! 0) = Some old_tg \<and>
     TransformTileGroup 0 (Finite 0) w = Some (Some new_tg, w') \<and>
     map (TileGroup_GetValue old_tg 3) [0, 1, 2, 3] =
       [Some (IntegerValue 13), Some (IntegerValue 23), Some (IntegerValue 33), Some (IntegerValue 43)] \<and>
     map (TileGroup_GetValue new_tg 3) [0, 1, 2, 3] =
       [Some (IntegerValue 13), Some (IntegerValue 23), Some (IntegerValue 33), Some (IntegerValue 43)] \<and>
     map (\<lambda>t. length (tile_schema t)) (tiles old_tg) = [4] \<and>
     map (\<lambda>t. length (tile_schema t)) (tiles new_tg) = [2, 2] \<and>
     GetNextTupleSlot new_tg = 5 \<and> tile_group_id new_tg = tile_group_id old_tg"
proof -
  have "case layout_world of None \<Rightarrow> False
        | Some w \<Rightarrow>
           (case Manager_GetTileGroup (manager w) (tile_groups (table w) ! 0) of None \<Rightarrow> False
            | Some old_tg \<Rightarrow>
               (case TransformTileGroup 0 (Finite 0) w of
                  Some (Some new_tg, w') \<Rightarrow>
                    distinct (map (map_of (default_partition (table w)))
                       [0..<length (default_partition (table w))]) \<and>
                    GetAllocatedTupleCount old_tg = 5 \<and> length (column_map old_tg) = 4 \<and>
                    GetNextTupleSlot old_tg = 5 \<and>
                    map (TileGroup_GetValue old_tg 3) [0, 1, 2, 3] =
                      [Some (IntegerValue 13), Some (IntegerValue 23), Some (IntegerValue 33),
                       Some (IntegerValue 43)] \<and>
                    map (\<lambda>t. length (tile_schema t)) (tiles old_tg) = [4] \<and>
                    map (\<lambda>t. length (tile_schema t)) (tiles new_tg) = [2, 2]
                | _ \<Rightarrow> False))"
    by code_simp
  then obtain w old_tg new_tg w' where
    a: "layout_world = Some w" and
    b: "Manager_GetTileGroup (manager w) (tile_groups (table w) ! 0) = Some old_tg" and
    c: "TransformTileGroup 0 (Finite 0) w = Some (Some new_tg, w')" and
    d: "distinct (map (map_of (default_partition (table w)))
                       [0..<length (default_partition (table w))])" and
    e: "GetAllocatedTupleCount old_tg = 5" "length (column_map old_tg) = 4"
       "GetNextTupleSlot old_tg = 5"
       "map (TileGroup_GetValue old_tg 3) [0, 1, 2, 3] =
          [Some (IntegerValue 13), Some (IntegerValue 23), Some (IntegerValue 33),
           Some (IntegerValue 43)]"
       "map (\<lambda>t. length (tile_schema t)) (tiles old_tg) = [4]"
       "map (\<lambda>t. length (tile_schema t)) (tiles new_tg) = [2, 2]"
    by (auto split: option.splits prod.splits)
  from transform_preserves_identity_and_data [OF c b d] e
  have "map (TileGroup_GetValue new_tg 3) [0, 1, 2, 3] = map (TileGroup_GetValue old_tg 3) [0, 1, 2, 3]"
    and "GetNextTupleSlot new_tg = 5" and "tile_group_id new_tg = tile_group_id old_tg"
    by simp_all
  with a b c e show ?thesis by (intro exI [of _ w] exI [of _ old_tg] exI [of _ new_tg] exI [of _ w'] conjI) simp_all
qed

section \<open>When the layout transformation declines\<close>

lemma length_filter_less_iff:
  "length (filter P xs) < length xs \<longleftrightarrow> (\<exists>x \<in> set xs. \<not> P x)"
proof (induction xs)
  case Nil
  then show ?case by simp
next
  case (Cons x xs)
  have "length (filter P xs) \<le> length xs" by (rule length_filter_le)
  with Cons show ?case by (cases "P x") auto
qed

lemma round_half_even_le: "of_int (round_half_even x) \<le> x + 1 / 2"
proof -
  have "(of_int \<lfloor>x\<rfloor> :: rat) \<le> x" by (rule of_int_floor_le)
  then show ?thesis
    unfolding round_half_even_def Let_def by (simp split: if_splits) linarith
qed

lemma round_half_even_nonneg: "0 \<le> x \<Longrightarrow> 0 \<le> round_half_even x"
  by (auto simp: round_half_even_def Let_def)

lemma floor_log2_below_one:
  assumes "0 < q" "q < 1"
  shows "floor_log2 q \<le> - 1"
proof -
  from assms have "1 < 1 / q" by simp
  then have "1 < \<lceil>1 / q\<rceil>" by linarith
  then have "1 \<le> bitlen (\<lceil>1 / q\<rceil> - 1)" by (simp add: bitlen_ge_iff_power)
  with assms show ?thesis by (simp add: floor_log2_def)
qed

lemma pow2_pos: "0 < pow2 e"
  by (simp add: pow2_def)

lemma pow2_small: "e \<le> - 53 \<Longrightarrow> pow2 e \<le> 1 / 2 ^ 53"
proof -
  assume e: "e \<le> - 53"
  then have "(2 :: rat) ^ 53 \<le> 2 ^ nat (- e)" by (intro power_increasing) simp_all
  then have "1 / (2 :: rat) ^ nat (- e) \<le> 1 / 2 ^ 53" by (intro divide_left_mono) simp_all
  with e show ?thesis by (simp add: pow2_def)
qed

text \<open>
  A proper fraction of counts up to \<open>2 ^ 53\<close> rounds to a double below 1: the fraction is
  at most \<open>1 - 1 / 2 ^ 53\<close> and rounding moves it by at most half a unit in the last place,
  \<open>1 / 2 ^ 54\<close>.
\<close>

lemma to_double_fraction:
  assumes "k < n" "n \<le> 2 ^ 53"
  shows "\<exists>r. to_double (of_nat k / of_nat n) = Finite r \<and> 0 \<le> r \<and> r < 1"
proof (cases "k = 0")
  case True
  then show ?thesis by (simp add: to_double_def)
next
  case False
  define q :: rat where "q = of_nat k / of_nat n"
  define u where "u = pow2 (max (floor_log2 \<bar>q\<bar> - 52) (- 1074))"
  define r where "r = of_int (round_half_even (q / u)) * u"
  from assms False have q: "0 < q" "q < 1" by (simp_all add: q_def)
  have "(of_nat n :: rat) \<le> of_nat (2 ^ 53)" using assms(2) by (simp only: of_nat_le_iff)
  then have n: "(of_nat n :: rat) \<le> 2 ^ 53" by simp
  from assms(1) have "Suc k \<le> n" by simp
  then have "(of_nat (Suc k) :: rat) \<le> of_nat n" by (simp only: of_nat_le_iff)
  then have "of_nat k + 1 \<le> (of_nat n :: rat)" by simp
  then have "q \<le> (of_nat n - 1) / of_nat n" using assms(1) by (simp add: q_def divide_right_mono)
  also have "\<dots> = 1 - 1 / of_nat n" using assms(1) by (simp add: field_simps)
  also have "\<dots> \<le> 1 - 1 / 2 ^ 53"
  proof -
    have "1 / (2 :: rat) ^ 53 \<le> 1 / of_nat n" using n assms(1) by (intro divide_left_mono) simp_all
    then show ?thesis by simp
  qed
  finally have qb: "q \<le> 1 - 1 / 2 ^ 53" .
  from floor_log2_below_one [OF q] q have "max (floor_log2 \<bar>q\<bar> - 52) (- 1074) \<le> - 53" by simp
  then have us: "u \<le> 1 / 2 ^ 53" unfolding u_def by (rule pow2_small)
  have up: "0 < u" unfolding u_def by (rule pow2_pos)
  have "of_int (round_half_even (q / u)) \<le> q / u + 1 / 2" by (rule round_half_even_le)
  then have "r \<le> (q / u + 1 / 2) * u" unfolding r_def using up by (intro mult_right_mono) simp_all
  also have "\<dots> = q + u / 2" using up by (simp add: field_simps)
  finally have rb: "r \<le> q + u / 2" .
  have r1: "r < 1" using rb qb us by simp
  have "0 \<le> q / u" using q up by simp
  then have "0 \<le> round_half_even (q / u)" by (rule round_half_even_nonneg)
  then have r0: "0 \<le> r" unfolding r_def using up by simp
  have big: "(1 :: rat) \<le> pow2 1024" by (simp add: pow2_def)
  have "to_double q = Finite r"
    using q(1) r0 r1 big unfolding to_double_def Let_def u_def [symmetric] r_def [symmetric]
    by simp
  with r0 r1 show ?thesis unfolding q_def by blast
qed

lemma to_double_one: "to_double 1 = Finite 1"
  by code_simp

text \<open>
  One tenth is not a double; the double nearest to it lies above it. A tile group with
  one column in ten out of place has this difference, and a threshold of \<^verbatim>\<open>0.1\<close>, the
  same double, does not exceed it.
\<close>

lemma to_double_tenth:
  "to_double (1 / 10) = Finite (3602879701896397 / 36028797018963968) \<and>
   \<not> double_less (to_double (1 / 10)) (to_double (1 / 10))"
  by code_simp

lemma double_less_irrefl: "\<not> double_less d d"
  by (cases d) simp_all

lemma schema_difference_below_one:
  assumes "GetSchemaDifference tg dp = Some d" "length (column_map tg) \<le> 2 ^ 53"
  shows "double_less d (Finite 1) \<longleftrightarrow>
           (\<exists>c < length (column_map tg). map_of (column_map tg) c = map_of dp c)"
proof (cases "length (column_map tg) = 0")
  case True
  with assms have "d = NaN" by (simp add: GetSchemaDifference_def Let_def split: if_splits)
  with True show ?thesis by simp
next
  case False
  let ?n = "length (column_map tg)"
  let ?k = "length (filter (\<lambda>col. map_of (column_map tg) col \<noteq> map_of dp col) [0..<?n])"
  from assms False have d: "d = to_double (of_nat ?k / of_nat ?n)"
    by (simp add: GetSchemaDifference_def Let_def split: if_splits)
  have le: "?k \<le> ?n" using length_filter_le [of _ "[0..<?n]"] by simp
  have "double_less d (Finite 1) \<longleftrightarrow> ?k < ?n"
  proof (cases "?k < ?n")
    case True
    from to_double_fraction [OF True assms(2)] d True show ?thesis by auto
  next
    case False
    with le have "?k = ?n" by simp
    then have "(of_nat ?k / of_nat ?n :: rat) = 1" using \<open>?n \<noteq> 0\<close> by simp
    with d False show ?thesis by (simp add: to_double_one)
  qed
  also have "?k < ?n \<longleftrightarrow> ?k < length [0..<?n]" by simp
  also have "\<dots> \<longleftrightarrow> (\<exists>c \<in> set [0..<?n]. \<not> map_of (column_map tg) c \<noteq> map_of dp c)"
    by (rule length_filter_less_iff)
  finally show ?thesis by (simp add: Bex_def)
qed

text \<open>
  Claim C8, as the code has it. A call of \<^verbatim>\<open>TransformTileGroup\<close> that returns does so
  with a null result exactly when the offset lies outside the table or the schema
  difference \<open>d\<close> of the tile group, a double, is below the double \<open>theta\<close>, and then it
  leaves the state as it was. With \<open>theta = 1.0\<close>, an offset inside the table and a tile
  group of at most \<open>2 ^ 53\<close> columns, the result is null exactly when some column keeps its
  position: a tile group none of whose columns is where the default partition puts it has
  \<open>d = 1.0\<close> and is transformed. A threshold equal to the difference never declines.
\<close>

theorem transform_null_iff_below_threshold:
  assumes run: "TransformTileGroup tile_group_offset theta w = Some (r, w')"
  shows "(r = None \<longleftrightarrow>
            length (tile_groups (table w)) \<le> tile_group_offset \<or>
            (\<exists>tg d. Manager_GetTileGroup (manager w) (tile_groups (table w) ! tile_group_offset) = Some tg \<and>
                    GetSchemaDifference tg (default_partition (table w)) = Some d \<and>
                    double_less d theta)) \<and>
         (r = None \<longrightarrow> w' = w) \<and>
         (tile_group_offset < length (tile_groups (table w)) \<longrightarrow>
            (\<exists>tg d. Manager_GetTileGroup (manager w) (tile_groups (table w) ! tile_group_offset) = Some tg \<and>
               GetSchemaDifference tg (default_partition (table w)) = Some d \<and>
               (theta = d \<longrightarrow> r \<noteq> None) \<and>
               (theta = Finite 1 \<and> length (column_map tg) \<le> 2 ^ 53 \<longrightarrow>
                  (r = None \<longleftrightarrow>
                     (\<exists>c < length (column_map tg).
                        map_of (column_map tg) c = map_of (default_partition (table w)) c)))))"
proof (cases "length (tile_groups (table w)) \<le> tile_group_offset")
  case True
  with run show ?thesis by (auto simp: TransformTileGroup_def)
next
  case False
  let ?tgid = "tile_groups (table w) ! tile_group_offset"
  let ?dp = "default_partition (table w)"
  from run False obtain tg d where
    tg: "Manager_GetTileGroup (manager w) ?tgid = Some tg" and
    d: "GetSchemaDifference tg ?dp = Some d" and
    rest: "(if double_less d theta then Some (None, w)
        else do {
          new_schema \<leftarrow> TransformTileGroupSchema tg ?dp;
          let new_tile_group = TileGroupFactory_GetTileGroup (tile_group_id tg) new_schema
                ?dp (GetAllocatedTupleCount tg);
          new_tile_group' \<leftarrow> SetTransformedTileGroup tg new_tile_group;
          Some (Some new_tile_group', w\<lparr>manager := AddTileGroup ?tgid new_tile_group' (manager w)\<rparr>)
        }) = Some (r, w')"
    unfolding TransformTileGroup_def Let_def
    by (cases "Manager_GetTileGroup (manager w) ?tgid";
        cases "GetSchemaDifference (the (Manager_GetTileGroup (manager w) ?tgid)) ?dp")
       simp_all
  have iff: "r = None \<longleftrightarrow> double_less d theta" and same: "r = None \<longrightarrow> w' = w"
    using rest by (cases "double_less d theta"; auto simp: Let_def bind_eq_Some_conv)+
  have eq: "theta = d \<longrightarrow> r \<noteq> None" using iff double_less_irrefl by simp
  have one: "theta = Finite 1 \<and> length (column_map tg) \<le> 2 ^ 53 \<longrightarrow> (r = None \<longleftrightarrow>
      (\<exists>c < length (column_map tg). map_of (column_map tg) c = map_of ?dp c))"
    using schema_difference_below_one [OF d] iff by simp
  show ?thesis
  proof (intro conjI)
    show "r = None \<longleftrightarrow>
            length (tile_groups (table w)) \<le> tile_group_offset \<or>
            (\<exists>tg d. Manager_GetTileGroup (manager w) ?tgid = Some tg \<and>
                    GetSchemaDifference tg ?dp = Some d \<and> double_less d theta)"
      using False iff tg d by simp
    show "r = None \<longrightarrow> w' = w" by (rule same)
    show "tile_group_offset < length (tile_groups (table w)) \<longrightarrow>
            (\<exists>tg d. Manager_GetTileGroup (manager w) ?tgid = Some tg \<and>
               GetSchemaDifference tg ?dp = Some d \<and>
               (theta = d \<longrightarrow> r \<noteq> None) \<and>
               (theta = Finite 1 \<and> length (column_map tg) \<le> 2 ^ 53 \<longrightarrow>
                  (r = None \<longleftrightarrow>
                     (\<exists>c < length (column_map tg). map_of (column_map tg) c = map_of ?dp c))))"
      using tg d eq one by blast
  qed
qed

theorem transform_null_iff_below_threshold_witness:
  "\<exists>w. layout_world = Some w \<and>
     TransformTileGroup 0 (Finite 1) w = Some (None, w) \<and>
     (\<exists>tg. Manager_GetTileGroup (manager w) (tile_groups (table w) ! 0) = Some tg \<and>
        GetSchemaDifference tg (default_partition (table w)) = Some (Finite (1 / 2)) \<and>
        double_less (Finite (1 / 2)) (Finite 1))"
proof -
  have "case layout_world of None \<Rightarrow> False
        | Some w \<Rightarrow>
           (case TransformTileGroup 0 (Finite 1) w of
              Some (None, w') \<Rightarrow>
                (case Manager_GetTileGroup (manager w) (tile_groups (table w) ! 0) of
                   None \<Rightarrow> False
                 | Some tg \<Rightarrow>
                     GetSchemaDifference tg (default_partition (table w)) = Some (Finite (1 / 2)))
            | _ \<Rightarrow> False)"
    by code_simp
  then obtain w w' tg where
    a: "layout_world = Some w" and b: "TransformTileGroup 0 (Finite 1) w = Some (None, w')" and
    c: "Manager_GetTileGroup (manager w) (tile_groups (table w) ! 0) = Some tg" and
    d: "GetSchemaDifference tg (default_partition (table w)) = Some (Finite (1 / 2))"
    by (auto split: option.splits prod.splits)
  from transform_null_iff_below_threshold [OF b] have "w' = w" by simp
  with a b c d show ?thesis by auto
qed

text \<open>
  With the two tiles swapped the difference is 1, and the call with \<open>theta = 1.0\<close> returns
  the transformed tile group, registered with the swapped column map.
\<close>

theorem transform_threshold_one_counterexample:
  "do { w \<leftarrow> swapped_world;
        tg \<leftarrow> GetTileGroup w 0;
        d \<leftarrow> GetSchemaDifference tg (default_partition (table w));
        (r, w') \<leftarrow> TransformTileGroup 0 (Finite 1) w;
        Some (d, r \<noteq> None, map_option column_map (GetTileGroup w' 0)) }
   = Some (Finite 1, True, Some swapped_partition)"
  by code_simp

section \<open>Sampling\<close>

lemma sample_round_sorted:
  "sample_round vis gen w n remaining drawn xs = Some (ys, drawn') \<Longrightarrow>
     sorted xs \<and> distinct xs \<Longrightarrow> sorted ys \<and> distinct ys"
proof (induction remaining arbitrary: drawn xs)
  case 0
  then show ?case by simp
next
  case (Suc remaining)
  let ?xs' = "(if vis (tile_group_header (the (GetTileGroup w
                  (gen drawn div tuples_per_tilegroup (table w))))) (gen drawn)
               then insort_insert (gen drawn) xs else xs)"
  have s: "sorted ?xs' \<and> distinct ?xs'"
    using Suc.prems(2) by (simp add: sorted_insort_insert distinct_insort_insert)
  from Suc.prems(1) have
    "(ys = ?xs' \<and> length ?xs' \<ge> n) \<or>
     sample_round vis gen w n remaining (drawn + 1) ?xs' = Some (ys, drawn')"
    by (auto simp: Let_def split: if_splits bind_splits)
  then show ?case using s Suc.IH [of "drawn + 1" ?xs'] by blast
qed

lemma sample_rounds_sorted:
  "sample_rounds vis gen w n rounds drawn xs = Some ys \<Longrightarrow>
     sorted xs \<and> distinct xs \<Longrightarrow> sorted ys \<and> distinct ys"
proof (induction rounds arbitrary: drawn xs)
  case 0
  then show ?case by simp
next
  case (Suc rounds)
  show ?case
  proof (cases "length xs < n")
    case True
    with Suc.prems(1) obtain xs' drawn' where
      r: "sample_round vis gen w n n drawn xs = Some (xs', drawn')" and
      rest: "sample_rounds vis gen w n rounds drawn' xs' = Some ys"
      by (auto split: bind_splits)
    from sample_round_sorted [OF r Suc.prems(2)] Suc.IH [OF rest] show ?thesis by blast
  next
    case False
    with Suc.prems show ?thesis by simp
  qed
qed

text \<open>
  Claim C10. When \<^verbatim>\<open>SampleRows\<close> returns \<open>k\<close>, the stored sample consists of exactly
  the \<open>k\<close> pointers of this call's increasing, repetition-free row ids, the cardinality map
  is empty (every sample cardinality reads 0), and a sample tile group materialized before
  the call is no longer in the catalog.
\<close>

theorem sample_rows_replaces_state:
  assumes "SampleRows IsVisible distribution sample_size w = Some (k, w')"
  shows "length (samples_for_optimizer (table w')) = k \<and>
         (\<exists>row_ids. sorted row_ids \<and> distinct row_ids \<and> length row_ids = k \<and>
            samples_for_optimizer (table w') =
              map (\<lambda>row_id. \<lparr>block = row_id div tuples_per_tilegroup (table w),
                              offset = row_id mod tuples_per_tilegroup (table w)\<rparr>) row_ids) \<and>
         cardinality_map (table w') = [] \<and>
         (\<forall>sample_column_id. GetSampleCardinality w' sample_column_id = 0) \<and>
         (\<forall>tgid. sampled_tile_group_id (table w) = Some tgid \<longrightarrow>
                   Manager_GetTileGroup (manager w') tgid = None)"
proof -
  define t1 where "t1 = (if length (samples_for_optimizer (table w)) \<noteq> 0
                then (table w)\<lparr>samples_for_optimizer := []\<rparr> else table w)"
  define m1 where "m1 = (case sampled_tile_group_id t1 of
                  None \<Rightarrow> manager w
                | Some tgid \<Rightarrow> DropTileGroup tgid (manager w))"
  define t2 where "t2 = (if length (cardinality_map t1) \<noteq> 0 then t1\<lparr>cardinality_map := []\<rparr> else t1)"
  define w1 where "w1 = w\<lparr>manager := m1, table := t2\<rparr>"
  have t1: "samples_for_optimizer t1 = []" "tuples_per_tilegroup t1 = tuples_per_tilegroup (table w)"
    "sampled_tile_group_id t1 = sampled_tile_group_id (table w)"
    by (simp_all add: t1_def)
  have t2: "samples_for_optimizer t2 = []" "tuples_per_tilegroup t2 = tuples_per_tilegroup (table w)"
    "cardinality_map t2 = []"
    using t1 by (simp_all add: t2_def)
  have m1: "sampled_tile_group_id (table w) = Some tgid \<Longrightarrow> locator m1 tgid = None" for tgid
    using t1(3) by (simp add: m1_def DropTileGroup_def)
  from assms obtain row_id_set where
    rows: "(if sample_size \<ge> tuple_count_exact t2 then Some [0..<tuple_count_exact t2]
           else sample_rounds IsVisible distribution w1 sample_size 10 0 []) = Some row_id_set" and
    k: "k = length row_id_set" and
    w': "w' = w1\<lparr>table := t2\<lparr>samples_for_optimizer := samples_for_optimizer t2 @
            map (\<lambda>row_id. \<lparr>block = row_id div tuples_per_tilegroup t2,
                            offset = row_id mod tuples_per_tilegroup t2\<rparr>) row_id_set\<rparr>\<rparr>"
    unfolding SampleRows_def Let_def t1_def [symmetric] m1_def [symmetric] t2_def [symmetric]
      w1_def [symmetric]
    by (auto split: bind_splits if_splits)
  have sd: "sorted row_id_set \<and> distinct row_id_set"
  proof (cases "sample_size \<ge> tuple_count_exact t2")
    case True
    with rows show ?thesis by auto
  next
    case False
    with rows have "sample_rounds IsVisible distribution w1 sample_size 10 0 [] = Some row_id_set"
      by simp
    from sample_rounds_sorted [OF this] show ?thesis by simp
  qed
  have s': "samples_for_optimizer (table w') =
              map (\<lambda>row_id. \<lparr>block = row_id div tuples_per_tilegroup (table w),
                              offset = row_id mod tuples_per_tilegroup (table w)\<rparr>) row_id_set"
    using t2 by (simp add: w')
  have c': "cardinality_map (table w') = []" using t2 by (simp add: w')
  have "manager w' = m1" by (simp add: w' w1_def)
  with m1 have d': "\<forall>tgid. sampled_tile_group_id (table w) = Some tgid \<longrightarrow>
                   Manager_GetTileGroup (manager w') tgid = None"
    by (simp add: Manager_GetTileGroup_def)
  from s' k sd c' d' show ?thesis
    by (auto simp: GetSampleCardinality_def)
qed

theorem sample_rows_replaces_state_witness:
  "\<exists>w w'. sampled_world = Some w \<and>
     samples_for_optimizer (table w) =
       [\<lparr>block = 0, offset = 0\<rparr>, \<lparr>block = 0, offset = 1\<rparr>,
        \<lparr>block = 1, offset = 0\<rparr>, \<lparr>block = 1, offset = 1\<rparr>] \<and>
     sampled_tile_group_id (table w) = Some 3 \<and>
     map_option tile_group_id (GetSampleTileGroup w) = Some 3 \<and>
     GetTableCardinality w 0 = 4 \<and>
     SampleRows all_visible always_row_three 1 w = Some (1, w') \<and>
     samples_for_optimizer (table w') = [\<lparr>block = 1, offset = 1\<rparr>] \<and>
     cardinality_map (table w') = [] \<and>
     GetTableCardinality w' 0 = 0 \<and>
     Manager_GetTileGroup (manager w') 3 = None"
proof -
  have "case sampled_world of None \<Rightarrow> False
        | Some w \<Rightarrow>
            samples_for_optimizer (table w) =
              [\<lparr>block = 0, offset = 0\<rparr>, \<lparr>block = 0, offset = 1\<rparr>,
               \<lparr>block = 1, offset = 0\<rparr>, \<lparr>block = 1, offset = 1\<rparr>] \<and>
            sampled_tile_group_id (table w) = Some 3 \<and>
            map_option tile_group_id (GetSampleTileGroup w) = Some 3 \<and>
            GetTableCardinality w 0 = 4 \<and>
            (case SampleRows all_visible always_row_three 1 w of None \<Rightarrow> False
             | Some (k, w') \<Rightarrow> k = 1 \<and>
                 samples_for_optimizer (table w') = [\<lparr>block = 1, offset = 1\<rparr>] \<and>
                 GetTableCardinality w' 0 = 0)"
    by code_simp
  then obtain w w' where
    a: "sampled_world = Some w" and
    b: "samples_for_optimizer (table w) =
              [\<lparr>block = 0, offset = 0\<rparr>, \<lparr>block = 0, offset = 1\<rparr>,
               \<lparr>block = 1, offset = 0\<rparr>, \<lparr>block = 1, offset = 1\<rparr>]"
       "sampled_tile_group_id (table w) = Some 3"
       "map_option tile_group_id (GetSampleTileGroup w) = Some 3"
       "GetTableCardinality w 0 = 4" and
    c: "SampleRows all_visible always_row_three 1 w = Some (1, w')" and
    d: "samples_for_optimizer (table w') = [\<lparr>block = 1, offset = 1\<rparr>]"
       "GetTableCardinality w' 0 = 0"
    by (auto split: option.splits prod.splits)
  from sample_rows_replaces_state [OF c] b(2)
  have "cardinality_map (table w') = []" "Manager_GetTileGroup (manager w') 3 = None"
    by simp_all
  with a b c d show ?thesis by (intro exI [of _ w] exI [of _ w'] conjI) simp_all
qed

text \<open>
  Claim C9 on the code. Row 3 of a table with two slots per tile group is slot 1 of the
  second tile group. The visibility predicate is asked about \<open>random_row_id\<close> itself: a
  predicate that holds of slot 3 only lets the row into the sample, one that holds of slot
  1 only does not, and neither does one that holds of the slots claimed in the header.
\<close>

theorem sample_rows_visibility_asked_about_row_id:
  "do { w \<leftarrow> sample_world;
        (k3, _) \<leftarrow> SampleRows (visible_at 3) always_row_three 1 w;
        (k1, _) \<leftarrow> SampleRows (visible_at 1) always_row_three 1 w;
        (kc, _) \<leftarrow> SampleRows claimed_slot always_row_three 1 w;
        Some (tuples_per_tilegroup (table w), tuple_count_exact (table w), k3, k1, kc) }
   = Some (2, 4, 1, 0, 0)"
  by code_simp

section \<open>Rule exploration in the constructor of a group iterator\<close>

lemma apply_rules_frame:
  "rules (apply_rules ex gid i rs s) = rules s \<and>
   plan_nodes (apply_rules ex gid i rs s) = plan_nodes s \<and>
   explore_calls (apply_rules ex gid i rs s) = explore_calls s @ map (\<lambda>r. (gid, i, r)) rs"
  by (induction rs arbitrary: s) auto

lemma apply_rules_flagged:
  "sticky ex \<Longrightarrow> flagged (groups s) k j \<Longrightarrow> flagged (groups (apply_rules ex gid i rs s)) k j"
  by (induction rs arbitrary: s) (auto simp: sticky_def)

lemma apply_rules_unflagged:
  "marks_nothing ex \<Longrightarrow> flagged (groups (apply_rules ex gid i rs s)) k j \<Longrightarrow> flagged (groups s) k j"
proof (induction rs arbitrary: s)
  case Nil
  then show ?case by simp
next
  case (Cons r rs)
  from Cons.prems(2)
  have "flagged (groups (apply_rules ex gid i rs
          (s\<lparr>groups := ex gid i r (groups s),
             explore_calls := explore_calls s @ [(gid, i, r)]\<rparr>))) k j"
    by simp
  from Cons.IH [OF Cons.prems(1) this]
  have "flagged (ex gid i r (groups s)) k j" by simp
  with Cons.prems(1) show ?case by (auto simp: marks_nothing_def)
qed

lemma flagged_set_explored:
  assumes "nth_opt gs gid = Some g" "nth_opt (explored_flags g) i = Some b"
  shows "flagged (gs[gid := set_explored i g]) gid i"
    and "flagged gs k j \<Longrightarrow> flagged (gs[gid := set_explored i g]) k j"
    and "flagged (gs[gid := set_explored i g]) k j \<Longrightarrow> (k = gid \<and> j = i) \<or> flagged gs k j"
  using assms
  by (auto simp: flagged_def nth_opt_def set_explored_def nth_list_update split: if_splits)

lemma target_group_ref_Some:
  "target_group_ref sz gid s = Some g \<longleftrightarrow> length (groups s) = sz \<and> nth_opt (groups s) gid = Some g"
  by (simp add: target_group_ref_def)

text \<open>One step of the loop, by cases, for the proofs below.\<close>

lemma explore_loop_Suc_cases:
  assumes "explore_loop (Suc fuel) ex sz gid i s = Some s'"
  obtains
    (finished) g where "length (groups s) = sz" "nth_opt (groups s) gid = Some g"
      "\<not> i < length (group_items g)" "s' = s"
  | (skipped) g where "length (groups s) = sz" "nth_opt (groups s) gid = Some g"
      "i < length (group_items g)"
      "nth_opt (explored_flags g) i = Some True" "explore_loop fuel ex sz gid (i + 1) s = Some s'"
  | (explored) g where "length (groups s) = sz" "nth_opt (groups s) gid = Some g"
      "i < length (group_items g)"
      "nth_opt (explored_flags g) i = Some False"
      "explore_loop fuel ex sz gid (i + 1)
         (apply_rules ex gid i (rules s) (s\<lparr>groups := (groups s)[gid := set_explored i g]\<rparr>)) = Some s'"
proof -
  from assms obtain g where g0: "target_group_ref sz gid s = Some g"
    by (cases "target_group_ref sz gid s") auto
  then have g: "length (groups s) = sz" "nth_opt (groups s) gid = Some g"
    by (simp_all add: target_group_ref_Some)
  show thesis
  proof (cases "i < length (group_items g)")
    case False
    with assms g0 have "s' = s" by simp
    with g False show thesis by (rule finished)
  next
    case True
    with assms g0 obtain flag where f: "nth_opt (explored_flags g) i = Some flag"
      by (cases "nth_opt (explored_flags g) i") auto
    show thesis
    proof (cases flag)
      case True
      with assms g0 f \<open>i < length (group_items g)\<close>
      have "explore_loop fuel ex sz gid (i + 1) s = Some s'" by simp
      with g \<open>i < length (group_items g)\<close> f True show thesis by (auto intro: skipped)
    next
      case False
      with assms g0 f \<open>i < length (group_items g)\<close>
      have "explore_loop fuel ex sz gid (i + 1)
         (apply_rules ex gid i (rules s) (s\<lparr>groups := (groups s)[gid := set_explored i g]\<rparr>)) = Some s'"
        by simp
      with g \<open>i < length (group_items g)\<close> f False show thesis by (auto intro: explored)
    qed
  qed
qed

lemma explore_loop_frame:
  "explore_loop fuel ex sz gid i s = Some s' \<Longrightarrow> rules s' = rules s \<and> plan_nodes s' = plan_nodes s"
proof (induction fuel arbitrary: i s)
  case 0
  then show ?case by simp
next
  case (Suc fuel)
  from Suc.prems show ?case
  proof (cases rule: explore_loop_Suc_cases)
    case (finished g)
    then show ?thesis by simp
  next
    case (skipped g)
    from Suc.IH [OF skipped(5)] show ?thesis .
  next
    case (explored g)
    from Suc.IH [OF explored(5)] show ?thesis by (simp add: apply_rules_frame)
  qed
qed

text \<open>
  When the loop returns, the vector of groups has the size it had when the references were
  bound: the last test of the loop condition read through them.
\<close>

lemma explore_loop_size:
  "explore_loop fuel ex sz gid i s = Some s' \<Longrightarrow>
     length (groups s') = sz \<and> (\<exists>g'. nth_opt (groups s') gid = Some g')"
proof (induction fuel arbitrary: i s)
  case 0
  then show ?case by simp
next
  case (Suc fuel)
  from Suc.prems show ?case
  proof (cases rule: explore_loop_Suc_cases)
    case (finished g)
    then show ?thesis by simp
  next
    case (skipped g)
    from Suc.IH [OF skipped(5)] show ?thesis .
  next
    case (explored g)
    from Suc.IH [OF explored(5)] show ?thesis .
  qed
qed

lemma explore_loop_flagged:
  "sticky ex \<Longrightarrow> explore_loop fuel ex sz gid i s = Some s' \<Longrightarrow> flagged (groups s) k j \<Longrightarrow>
     flagged (groups s') k j"
proof (induction fuel arbitrary: i s)
  case 0
  then show ?case by simp
next
  case (Suc fuel)
  from Suc.prems(2) show ?case
  proof (cases rule: explore_loop_Suc_cases)
    case (finished g)
    with Suc.prems show ?thesis by simp
  next
    case (skipped g)
    from Suc.IH [OF Suc.prems(1) skipped(5) Suc.prems(3)] show ?thesis .
  next
    case (explored g)
    have "flagged (groups (apply_rules ex gid i (rules s)
             (s\<lparr>groups := (groups s)[gid := set_explored i g]\<rparr>))) k j"
      using flagged_set_explored(2) [OF explored(2,4) Suc.prems(3)]
      by (intro apply_rules_flagged [OF Suc.prems(1)]) simp
    from Suc.IH [OF Suc.prems(1) explored(5) this] show ?thesis .
  qed
qed

lemma explore_loop_all_flagged:
  "sticky ex \<Longrightarrow> explore_loop fuel ex sz gid i s = Some s' \<Longrightarrow> \<forall>j < i. flagged (groups s) gid j \<Longrightarrow>
     \<exists>g'. nth_opt (groups s') gid = Some g' \<and>
          (\<forall>j < length (group_items g'). flagged (groups s') gid j)"
proof (induction fuel arbitrary: i s)
  case 0
  then show ?case by simp
next
  case (Suc fuel)
  from Suc.prems(2) show ?case
  proof (cases rule: explore_loop_Suc_cases)
    case (finished g)
    with Suc.prems(3) show ?thesis by auto
  next
    case (skipped g)
    from skipped(2,4) have "flagged (groups s) gid i"
      by (auto simp: flagged_def nth_opt_def split: if_splits)
    with Suc.prems(3) have "\<forall>j < i + 1. flagged (groups s) gid j"
      by (auto simp: less_Suc_eq)
    from Suc.IH [OF Suc.prems(1) skipped(5) this] show ?thesis .
  next
    case (explored g)
    let ?gs1 = "(groups s)[gid := set_explored i g]"
    let ?s1 = "apply_rules ex gid i (rules s) (s\<lparr>groups := ?gs1\<rparr>)"
    have "\<forall>j < i + 1. flagged ?gs1 gid j"
      using flagged_set_explored(1,2) [OF explored(2,4)] Suc.prems(3) by (auto simp: less_Suc_eq)
    then have "\<forall>j < i + 1. flagged (groups ?s1) gid j"
      using apply_rules_flagged [OF Suc.prems(1), of "s\<lparr>groups := ?gs1\<rparr>"] by simp
    from Suc.IH [OF Suc.prems(1) explored(5) this] show ?thesis .
  qed
qed


lemma explore_loop_prefix:
  "explore_loop fuel ex sz gid i s = Some s' \<Longrightarrow> \<exists>new. explore_calls s' = explore_calls s @ new"
proof (induction fuel arbitrary: i s)
  case 0
  then show ?case by simp
next
  case (Suc fuel)
  from Suc.prems show ?case
  proof (cases rule: explore_loop_Suc_cases)
    case (finished g)
    then show ?thesis by simp
  next
    case (skipped g)
    from Suc.IH [OF skipped(5)] show ?thesis .
  next
    case (explored g)
    from Suc.IH [OF explored(5)] show ?thesis by (auto simp: apply_rules_frame)
  qed
qed

text \<open>
  The loop explores every unmarked item it reaches, and it reaches every item of the
  group as the group is when the loop ends.
\<close>

lemma explore_loop_explores:
  "marks_nothing ex \<Longrightarrow> explore_loop fuel ex sz gid i s = Some s' \<Longrightarrow>
     nth_opt (groups s') gid = Some g' \<Longrightarrow> i \<le> j \<Longrightarrow> j < length (group_items g') \<Longrightarrow>
     \<not> flagged (groups s) gid j \<Longrightarrow> r \<in> set (rules s) \<Longrightarrow>
     (gid, j, r) \<in> set (drop (length (explore_calls s)) (explore_calls s'))"
proof (induction fuel arbitrary: i s)
  case 0
  then show ?case by simp
next
  case (Suc fuel)
  from Suc.prems(2) show ?case
  proof (cases rule: explore_loop_Suc_cases)
    case (finished g)
    with Suc.prems show ?thesis by simp
  next
    case (skipped g)
    from skipped(2,4) have "flagged (groups s) gid i"
      by (auto simp: flagged_def nth_opt_def split: if_splits)
    with Suc.prems(4,6) have "i + 1 \<le> j" by (cases "j = i") auto
    from Suc.IH [OF Suc.prems(1) skipped(5) Suc.prems(3) this Suc.prems(5,6,7)] show ?thesis .
  next
    case (explored g)
    let ?gs1 = "(groups s)[gid := set_explored i g]"
    let ?s1 = "apply_rules ex gid i (rules s) (s\<lparr>groups := ?gs1\<rparr>)"
    let ?block = "map (\<lambda>r. (gid, i, r)) (rules s)"
    have calls1: "explore_calls ?s1 = explore_calls s @ ?block"
      by (simp add: apply_rules_frame)
    from explore_loop_prefix [OF explored(5)] obtain new where
      new: "explore_calls s' = explore_calls s @ ?block @ new"
      by (auto simp: calls1)
    show ?thesis
    proof (cases "j = i")
      case True
      with Suc.prems(7) new show ?thesis by auto
    next
      case False
      with Suc.prems(4) have le: "i + 1 \<le> j" by simp
      have "\<not> flagged (groups ?s1) gid j"
      proof
        assume "flagged (groups ?s1) gid j"
        from apply_rules_unflagged [OF Suc.prems(1) this]
        have "flagged ?gs1 gid j" by simp
        from flagged_set_explored(3) [OF explored(2,4) this] False Suc.prems(6)
        show False by simp
      qed
      moreover have "r \<in> set (rules ?s1)" using Suc.prems(7) by (simp add: apply_rules_frame)
      ultimately have "(gid, j, r) \<in> set (drop (length (explore_calls ?s1)) (explore_calls s'))"
        by (intro Suc.IH [OF Suc.prems(1) explored(5) Suc.prems(3) le Suc.prems(5)])
      then show ?thesis using new by (simp add: calls1)
    qed
  qed
qed








lemma flagged_append_items:
  assumes "nth_opt gs k' = Some g"
  shows "flagged (gs[k' := append_items ops g]) k j \<longleftrightarrow> flagged gs k j"
  using assms
  by (auto simp: flagged_def nth_opt_def append_items_def nth_list_update nth_append
           split: if_splits)


lemma sticky_append_once: "sticky append_once"
  unfolding sticky_def append_once_def
  by (auto split: option.splits simp: flagged_append_items)

lemma sticky_append_to_parent: "sticky append_to_parent"
  unfolding sticky_def append_to_parent_def
  by (auto split: option.splits simp: flagged_append_items)

lemma marks_nothing_append_once: "marks_nothing append_once"
  unfolding marks_nothing_def append_once_def
  by (auto split: option.splits if_splits simp: flagged_append_items)

lemma marks_nothing_append_to_parent: "marks_nothing append_to_parent"
  unfolding marks_nothing_def append_to_parent_def
  by (auto split: option.splits if_splits simp: flagged_append_items)

section \<open>Bindings of nested patterns\<close>

text \<open>
  Claim C2 on the code. Groups \<open>g0 = [Filter(g1)]\<close>, \<open>g1 = [Filter(g2)]\<close>,
  \<open>g2 = [Get]\<close> and the pattern \<open>Filter(Filter(Leaf))\<close>: the one matching plan is
  \<open>Filter(Filter(Leaf g2))\<close>. The iterator yields one plan, read when \<open>Next\<close> returns it,
  and its inner \<open>Filter\<close> node has no child: the node is the \<open>current_binding\<close> of the
  item iterator over \<open>g1\<close>, whose last \<open>HasNext\<close> popped the child again.
\<close>

theorem nested_pattern_binding_loses_children:
  "map_option fst (bind_group 9 no_rules 0 (Pattern Filter [Pattern Filter [Pattern Leaf []]])
       filter_memo)
     = Some [Plan (LogicalFilter 1) [Plan (LogicalFilter 2) []]] \<and>
   matching_plans (Pattern Filter [Pattern Filter [Pattern Leaf []]]) (groups filter_memo) 0
     = [Plan (LogicalFilter 1) [Plan (LogicalFilter 2) [Plan (LeafOperator 2) []]]]"
  by code_simp

section \<open>Leaf patterns\<close>

text \<open>
  Claim C6 on the code. For a group without items \<open>Next\<close> sets \<open>current_item_index\<close>
  to the size of the group, which is 0, and \<open>HasNext\<close> is true again: it is true before
  and after each of the first three calls of \<open>Next\<close>, each of which makes a new node.
\<close>

theorem leaf_pattern_on_empty_group_has_next_again:
  "do { (git, s) \<leftarrow> GroupBindingIterator_new 1 no_rules 0 (Pattern Leaf []) empty_group_memo;
        (more1, git1, s1) \<leftarrow> GroupBindingIterator_HasNext 1 (bind_child 1 no_rules) git s;
        (node1, git2, s2) \<leftarrow> GroupBindingIterator_Next git1 s1;
        (more2, git3, s3) \<leftarrow> GroupBindingIterator_HasNext 1 (bind_child 1 no_rules) git2 s2;
        (node2, git4, s4) \<leftarrow> GroupBindingIterator_Next git3 s3;
        (more3, git5, s5) \<leftarrow> GroupBindingIterator_HasNext 1 (bind_child 1 no_rules) git4 s4;
        (node3, git6, s6) \<leftarrow> GroupBindingIterator_Next git5 s5;
        (more4, git7, s7) \<leftarrow> GroupBindingIterator_HasNext 1 (bind_child 1 no_rules) git6 s6;
        Some ([more1, more2, more3, more4], [node1, node2, node3], map node_op (plan_nodes s7)) }
   = Some ([True, True, True, True], [0, 1, 2],
           [LeafOperator 0, LeafOperator 0, LeafOperator 0])"
  by code_simp

text \<open>
  For a group with at least one item the iterator of a \<open>Leaf\<close> pattern yields the one
  plan \<open>LeafOperator(group)\<close> and is exhausted from then on.
\<close>

lemma leaf_pattern_yields_once:
  assumes "Pattern_Type pat = Leaf"
    and "GroupBindingIterator_new fuel ExploreItem gid pat s = Some (git, s1)"
    and "nth_opt (groups s1) gid = Some g1" "group_items g1 \<noteq> []"
  shows "GroupBindingIterator_HasNext n bc git s1 = Some (True, git, s1) \<and>
         (\<exists>git' s2. GroupBindingIterator_Next git s1 = Some (length (plan_nodes s1), git', s2) \<and>
            plan_nodes s2 = plan_nodes s1 @ [\<lparr>node_op = LeafOperator gid, node_children = []\<rparr>] \<and>
            groups s2 = groups s1 \<and>
            (\<forall>m bc'. GroupBindingIterator_HasNext m bc' git' s2 = Some (False, git', s2)))"
proof -
  from assms(2) have git: "git = \<lparr>group_id = gid, pattern = pat, groups_size = length (groups s),
      current_item_index = 0, current_iterator = None, visited = []\<rparr>"
    and loop: "explore_loop fuel ExploreItem (length (groups s)) gid 0 s = Some s1"
    by (auto simp: GroupBindingIterator_new_def split: bind_splits)
  from explore_loop_size [OF loop] have "length (groups s1) = length (groups s)" by simp
  with assms(3) have "target_group_ref (length (groups s)) gid s1 = Some g1"
    by (simp add: target_group_ref_Some)
  then show ?thesis
    using assms(1,4)
    by (auto simp: git GroupBindingIterator_HasNext_def GroupBindingIterator_Next_def
          make_shared_def)
qed

section \<open>Exploration over the lifetime of the optimizer\<close>






lemma make_shared_memo: "make_shared nd s = (node, s') \<Longrightarrow> same_memo s s'"
  by (auto simp: make_shared_def same_memo_def)























lemma local_append_once: "local_explore append_once"
  unfolding local_explore_def append_once_def
  by (auto simp: nth_opt_def split: option.splits)




section \<open>The items a group iterator visits\<close>

lemma scan_items_visited:
  "scan_items fuel bc git s = Some (git', s') \<Longrightarrow> current_iterator git = None \<Longrightarrow>
     visited git = [0..<current_item_index git] \<Longrightarrow>
     group_id git' = group_id git \<and> pattern git' = pattern git \<and>
     groups_size git' = groups_size git \<and>
     (current_iterator git' = None \<longrightarrow>
        visited git' = [0..<current_item_index git'] \<and>
        (\<exists>g. nth_opt (groups s') (group_id git) = Some g \<and>
             length (group_items g) \<le> current_item_index git')) \<and>
     (current_iterator git' \<noteq> None \<longrightarrow> visited git' = [0..<Suc (current_item_index git')])"
proof (induction fuel arbitrary: git s)
  case 0
  then show ?case by simp
next
  case (Suc fuel)
  obtain g where g: "target_group_ref (groups_size git) (group_id git) s = Some g"
    using Suc.prems(1) by (cases "target_group_ref (groups_size git) (group_id git) s") auto
  show ?case
  proof (cases "current_item_index git < length (group_items g)")
    case False
    with Suc.prems g show ?thesis by (auto simp: target_group_ref_Some)
  next
    case True
    let ?git1 = "git\<lparr>visited := visited git @ [current_item_index git]\<rparr>"
    obtain it s1 where new: "ItemBindingIterator_new bc (group_id git) (current_item_index git)
        (pattern git) s = Some (it, s1)"
      using Suc.prems(1) g True
      by (cases "ItemBindingIterator_new bc (group_id git) (current_item_index git) (pattern git) s")
         auto
    obtain b it' s2 where hn: "ItemBindingIterator_HasNext it s1 = Some (b, it', s2)"
      using Suc.prems(1) g True new
      by (cases "ItemBindingIterator_HasNext it s1") (auto simp: Let_def)
    have v1: "visited ?git1 = [0..<Suc (current_item_index git)]" using Suc.prems(3) by simp
    show ?thesis
    proof (cases b)
      case True
      with Suc.prems(1) g \<open>current_item_index git < length (group_items g)\<close> new hn
      have "git' = ?git1\<lparr>current_iterator := Some it'\<rparr>" by (simp add: Let_def)
      with v1 show ?thesis by simp
    next
      case False
      let ?git2 = "?git1\<lparr>current_iterator := None, current_item_index := current_item_index git + 1\<rparr>"
      from False Suc.prems(1) g \<open>current_item_index git < length (group_items g)\<close> new hn
      have rest: "scan_items fuel bc ?git2 s2 = Some (git', s')" by (simp add: Let_def)
      have "visited ?git2 = [0..<current_item_index ?git2]" using v1 by simp
      from Suc.IH [OF rest _ this] show ?thesis by simp
    qed
  qed
qed

lemma GroupBindingIterator_HasNext_visited:
  assumes run: "GroupBindingIterator_HasNext fuel bc git s = Some (b, git', s')"
    and nl: "Pattern_Type (pattern git) \<noteq> Leaf"
    and inv: "visited git = [0..<current_item_index git +
                               (if current_iterator git = None then 0 else 1)]"
  shows "group_id git' = group_id git \<and> pattern git' = pattern git \<and>
     groups_size git' = groups_size git \<and>
     (b \<longleftrightarrow> current_iterator git' \<noteq> None) \<and>
     visited git' = [0..<current_item_index git' + (if current_iterator git' = None then 0 else 1)] \<and>
     (\<not> b \<longrightarrow> (\<exists>g. nth_opt (groups s') (group_id git) = Some g \<and>
                    length (group_items g) \<le> current_item_index git'))"
proof -
  let ?step = "(case current_iterator git of
             None \<Rightarrow> Some (git, s)
           | Some it \<Rightarrow> do {
               (more, it', s') \<leftarrow> ItemBindingIterator_HasNext it s;
               if \<not> more
               then Some (git\<lparr>current_iterator := None,
                               current_item_index := current_item_index git + 1\<rparr>, s')
               else Some (git\<lparr>current_iterator := Some it'\<rparr>, s')
             })"
  obtain git1 s1 where a: "?step = Some (git1, s1)"
    using run nl by (cases ?step) (auto simp: GroupBindingIterator_HasNext_def)
  have c: "(if current_iterator git1 = None then scan_items fuel bc git1 s1 else Some (git1, s1))
        = Some (git', s')" and b: "b \<longleftrightarrow> current_iterator git' \<noteq> None"
    using run nl a
    by (cases "if current_iterator git1 = None then scan_items fuel bc git1 s1 else Some (git1, s1)";
        auto simp: GroupBindingIterator_HasNext_def)+
  have i1: "group_id git1 = group_id git \<and> pattern git1 = pattern git \<and>
     groups_size git1 = groups_size git \<and>
     visited git1 = [0..<current_item_index git1 + (if current_iterator git1 = None then 0 else 1)]"
  proof (cases "current_iterator git")
    case None
    with a inv show ?thesis by auto
  next
    case (Some it)
    with a obtain m it' s2 where hn: "ItemBindingIterator_HasNext it s = Some (m, it', s2)"
      by (cases "ItemBindingIterator_HasNext it s") auto
    with a Some inv show ?thesis by (cases m) auto
  qed
  show ?thesis
  proof (cases "current_iterator git1 = None")
    case True
    with c have sc: "scan_items fuel bc git1 s1 = Some (git', s')" by simp
    from i1 True have "visited git1 = [0..<current_item_index git1]" by simp
    from scan_items_visited [OF sc True this] i1 b show ?thesis by auto
  next
    case False
    with c i1 b show ?thesis by auto
  qed
qed

lemma run_group_iterator_visited:
  "run_group_iterator fuel ex git seen s = Some (seen', git', s') \<Longrightarrow>
     Pattern_Type (pattern git) \<noteq> Leaf \<Longrightarrow>
     visited git = [0..<current_item_index git + (if current_iterator git = None then 0 else 1)] \<Longrightarrow>
     visited git' = [0..<current_item_index git'] \<and>
     (\<exists>g. nth_opt (groups s') (group_id git) = Some g \<and>
          length (group_items g) \<le> current_item_index git')"
proof (induction fuel arbitrary: git seen s)
  case 0
  then show ?case by simp
next
  case (Suc fuel)
  obtain b git1 s1 where hn:
    "GroupBindingIterator_HasNext fuel (bind_child fuel ex) git s = Some (b, git1, s1)"
    using Suc.prems(1)
    by (cases "GroupBindingIterator_HasNext fuel (bind_child fuel ex) git s") auto
  from GroupBindingIterator_HasNext_visited [OF hn Suc.prems(2,3)]
  have h: "group_id git1 = group_id git" "pattern git1 = pattern git"
    "b \<longleftrightarrow> current_iterator git1 \<noteq> None"
    "visited git1 = [0..<current_item_index git1 + (if current_iterator git1 = None then 0 else 1)]"
    "\<not> b \<longrightarrow> (\<exists>g. nth_opt (groups s1) (group_id git) = Some g \<and>
                    length (group_items g) \<le> current_item_index git1)"
    by simp_all
  show ?case
  proof (cases b)
    case False
    with Suc.prems(1) hn have "git' = git1" "s' = s1" by simp_all
    with h False show ?thesis by simp
  next
    case True
    with h(3) obtain it where it: "current_iterator git1 = Some it" by auto
    from Suc.prems(2) h(2) it
    have nx: "GroupBindingIterator_Next git1 s1 = Some (ItemBindingIterator_Next it, git1, s1)"
      by (simp add: GroupBindingIterator_Next_def)
    from Suc.prems(1) hn True nx obtain p where
      rest: "run_group_iterator fuel ex git1 (seen @ [p]) s1 = Some (seen', git', s')"
      by (cases "read_plan fuel (plan_nodes s1) (ItemBindingIterator_Next it)") auto
    from Suc.IH [OF rest] Suc.prems(2) h(1,2,4) show ?thesis by simp
  qed
qed

lemma scan_items_exhausted:
  "scan_items fuel bc git s = Some (git', s') \<Longrightarrow> current_iterator git' = None \<Longrightarrow>
     \<exists>g. nth_opt (groups s') (group_id git) = Some g \<and>
         length (group_items g) \<le> current_item_index git'"
proof (induction fuel arbitrary: git s)
  case 0
  then show ?case by simp
next
  case (Suc fuel)
  obtain g where g: "target_group_ref (groups_size git) (group_id git) s = Some g"
    using Suc.prems(1) by (cases "target_group_ref (groups_size git) (group_id git) s") auto
  show ?case
  proof (cases "current_item_index git < length (group_items g)")
    case False
    with Suc.prems g show ?thesis by (auto simp: target_group_ref_Some)
  next
    case True
    let ?git1 = "git\<lparr>visited := visited git @ [current_item_index git]\<rparr>"
    obtain it s1 where new: "ItemBindingIterator_new bc (group_id git) (current_item_index git)
        (pattern git) s = Some (it, s1)"
      using Suc.prems(1) g True
      by (cases "ItemBindingIterator_new bc (group_id git) (current_item_index git) (pattern git) s")
         auto
    obtain b it' s2 where hn: "ItemBindingIterator_HasNext it s1 = Some (b, it', s2)"
      using Suc.prems(1) g True new
      by (cases "ItemBindingIterator_HasNext it s1") (auto simp: Let_def)
    show ?thesis
    proof (cases b)
      case True
      with Suc.prems(1) g \<open>current_item_index git < length (group_items g)\<close> new hn
      have "git' = ?git1\<lparr>current_iterator := Some it'\<rparr>" by (simp add: Let_def)
      with Suc.prems(2) show ?thesis by simp
    next
      case False
      from False Suc.prems(1) g \<open>current_item_index git < length (group_items g)\<close> new hn
      have "scan_items fuel bc
          (?git1\<lparr>current_iterator := None, current_item_index := current_item_index git + 1\<rparr>) s2
          = Some (git', s')" by (simp add: Let_def)
      from Suc.IH [OF this Suc.prems(2)] show ?thesis by simp
    qed
  qed
qed

lemma HasNext_exhausted:
  assumes "GroupBindingIterator_HasNext n bc git s = Some (False, git', s')"
    and "Pattern_Type (pattern git) \<noteq> Leaf"
  shows "\<exists>g. nth_opt (groups s') (group_id git) = Some g \<and>
             length (group_items g) \<le> current_item_index git'"
proof -
  from assms obtain git1 s1 where
    scan: "scan_items n bc git1 s1 = Some (git', s')" and
    none: "current_iterator git' = None" and gid: "group_id git1 = group_id git"
    unfolding GroupBindingIterator_HasNext_def
    by (auto split: bind_splits option.splits if_splits)
  from scan_items_exhausted [OF scan none] gid show ?thesis by simp
qed

text \<open>
  Claim C4, as the code has it. A group iterator reads its group through references, so
  its loops follow the group as it is at each test of their condition, as long as the
  references are valid. When the constructor returns, every item then in the group, also
  one appended by exploration during the constructor's own loop, is marked explored if
  \<^verbatim>\<open>ExploreItem\<close> is sticky, and has been explored by this constructor, with every rule,
  unless it was marked when the constructor began, if \<^verbatim>\<open>ExploreItem\<close> sets no mark of its
  own. For a pattern other than \<open>Leaf\<close>, when the loop
  \<^verbatim>\<open>while (it.HasNext()) use(it.Next())\<close> over the iterator ends, the iterator has
  constructed an item iterator for every index below its \<open>current_item_index\<close>, once and
  in order, and that index has passed every item the group holds at that moment, also
  the items appended while the iterator was in use. And every \<^verbatim>\<open>HasNext\<close> that reports
  exhaustion leaves \<open>current_item_index\<close> past every item in the group at that moment.
\<close>

theorem group_iterator_follows_live_group:
  assumes new: "GroupBindingIterator_new fuel ExploreItem gid pat s = Some (git, s1)"
  shows "(\<exists>g1. nth_opt (groups s1) gid = Some g1 \<and>
            (sticky ExploreItem \<longrightarrow>
               (\<forall>j < length (group_items g1). flagged (groups s1) gid j)) \<and>
            (marks_nothing ExploreItem \<longrightarrow>
               (\<forall>j < length (group_items g1). \<forall>r \<in> set (rules s).
                  \<not> flagged (groups s) gid j \<longrightarrow>
                  (gid, j, r) \<in> set (drop (length (explore_calls s)) (explore_calls s1))))) \<and>
         (Pattern_Type pat \<noteq> Leaf \<longrightarrow>
            (\<forall>n seen git' s2.
               run_group_iterator n ExploreItem git [] s1 = Some (seen, git', s2) \<longrightarrow>
               visited git' = [0..<current_item_index git'] \<and>
               (\<exists>g2. nth_opt (groups s2) gid = Some g2 \<and>
                     length (group_items g2) \<le> current_item_index git'))) \<and>
         (\<forall>n bind git2 s2 git3 s3.
            group_id git2 = gid \<and> Pattern_Type (pattern git2) \<noteq> Leaf \<and>
            GroupBindingIterator_HasNext n bind git2 s2 = Some (False, git3, s3) \<longrightarrow>
            (\<exists>g3. nth_opt (groups s3) gid = Some g3 \<and>
                  length (group_items g3) \<le> current_item_index git3))"
proof -
  let ?sz = "length (groups s)"
  from new have loop: "explore_loop fuel ExploreItem ?sz gid 0 s = Some s1"
    and git: "git = \<lparr>group_id = gid, pattern = pat, groups_size = ?sz,
                     current_item_index = 0, current_iterator = None, visited = []\<rparr>"
    by (auto simp: GroupBindingIterator_new_def split: bind_splits)
  from explore_loop_size [OF loop] obtain g1 where g1: "nth_opt (groups s1) gid = Some g1"
    by blast
  have a: "\<forall>j < length (group_items g1). flagged (groups s1) gid j" if "sticky ExploreItem"
    using explore_loop_all_flagged [OF that loop] g1 by simp
  have b: "\<forall>j < length (group_items g1). \<forall>r \<in> set (rules s).
             \<not> flagged (groups s) gid j \<longrightarrow>
             (gid, j, r) \<in> set (drop (length (explore_calls s)) (explore_calls s1))"
    if "marks_nothing ExploreItem"
    using explore_loop_explores [OF that loop g1] by simp
  have c: "visited git' = [0..<current_item_index git'] \<and>
           (\<exists>g2. nth_opt (groups s2) gid = Some g2 \<and>
                 length (group_items g2) \<le> current_item_index git')"
    if "Pattern_Type pat \<noteq> Leaf"
      and "run_group_iterator n ExploreItem git [] s1 = Some (seen, git', s2)"
    for n seen git' s2
    using run_group_iterator_visited [OF that(2)] that(1) by (simp add: git)
  have d: "\<exists>g3. nth_opt (groups s3) gid = Some g3 \<and>
                length (group_items g3) \<le> current_item_index git3"
    if "group_id git2 = gid \<and> Pattern_Type (pattern git2) \<noteq> Leaf \<and>
        GroupBindingIterator_HasNext n bind git2 s2 = Some (False, git3, s3)"
    for n bind git2 s2 git3 s3
    using HasNext_exhausted [of n bind git2 s2 git3 s3] that by auto
  from g1 a b have first: "\<exists>g1. nth_opt (groups s1) gid = Some g1 \<and>
            (sticky ExploreItem \<longrightarrow>
               (\<forall>j < length (group_items g1). flagged (groups s1) gid j)) \<and>
            (marks_nothing ExploreItem \<longrightarrow>
               (\<forall>j < length (group_items g1). \<forall>r \<in> set (rules s).
                  \<not> flagged (groups s) gid j \<longrightarrow>
                  (gid, j, r) \<in> set (drop (length (explore_calls s)) (explore_calls s1))))"
    by blast
  from first c d show ?thesis by blast
qed

theorem group_iterator_follows_live_group_witness:
  "(\<exists>git s1. GroupBindingIterator_new 3 append_once 0 (Pattern Get []) scan_memo = Some (git, s1) \<and>
      map group_items (groups s1) = [[LogicalGet 1, LogicalGet 99]] \<and>
      flagged (groups s1) 0 0 \<and> flagged (groups s1) 0 1 \<and>
      (0, 1, ()) \<in> set (explore_calls s1)) \<and>
   (\<exists>git s1 seen git' s2.
      GroupBindingIterator_new 3 append_to_parent 0 (Pattern Filter [Pattern Get []])
        filter_scan_memo = Some (git, s1) \<and>
      map group_items (groups s1) = [[LogicalFilter 1], [LogicalGet 1]] \<and>
      run_group_iterator 9 append_to_parent git [] s1 = Some (seen, git', s2) \<and>
      map group_items (groups s2) = [[LogicalFilter 1, LogicalFilter 1], [LogicalGet 1]] \<and>
      visited git' = [0, 1])"
proof -
  have "case GroupBindingIterator_new 3 append_once 0 (Pattern Get []) scan_memo of
          None \<Rightarrow> False
        | Some (git, s1) \<Rightarrow> map group_items (groups s1) = [[LogicalGet 1, LogicalGet 99]]"
    by code_simp
  then obtain git s1 where
    a: "GroupBindingIterator_new 3 append_once 0 (Pattern Get []) scan_memo = Some (git, s1)" and
    b: "map group_items (groups s1) = [[LogicalGet 1, LogicalGet 99]]"
    by (auto split: option.splits prod.splits)
  from group_iterator_follows_live_group [OF a] sticky_append_once marks_nothing_append_once
  obtain g1 where
    c: "nth_opt (groups s1) 0 = Some g1" "\<forall>j < length (group_items g1). flagged (groups s1) 0 j"
      "\<forall>j < length (group_items g1). \<forall>r \<in> set (rules scan_memo).
          \<not> flagged (groups scan_memo) 0 j \<longrightarrow>
          (0, j, r) \<in> set (drop (length (explore_calls scan_memo)) (explore_calls s1))"
    by blast
  from c(1) b have len: "length (group_items g1) = 2"
    by (cases "groups s1") (auto simp: nth_opt_def split: if_splits)
  with c(2) have fl: "flagged (groups s1) 0 0" "flagged (groups s1) 0 1" by simp_all
  have "\<not> flagged (groups scan_memo) 0 1" "rules scan_memo = [()]" "explore_calls scan_memo = []"
    by (simp_all add: scan_memo_def with_rule_def new_memo_def new_group_def flagged_def)
  with c(3) len have call: "(0, 1, ()) \<in> set (explore_calls s1)" by simp
  have one: "\<exists>git s1. GroupBindingIterator_new 3 append_once 0 (Pattern Get []) scan_memo
         = Some (git, s1) \<and>
      map group_items (groups s1) = [[LogicalGet 1, LogicalGet 99]] \<and>
      flagged (groups s1) 0 0 \<and> flagged (groups s1) 0 1 \<and>
      (0, 1, ()) \<in> set (explore_calls s1)"
    using a b fl call by (intro exI [of _ git] exI [of _ s1] conjI) simp_all
  let ?pat = "Pattern Filter [Pattern Get []]"
  have "case GroupBindingIterator_new 3 append_to_parent 0 ?pat filter_scan_memo of
          None \<Rightarrow> False
        | Some (git, s1) \<Rightarrow>
            map group_items (groups s1) = [[LogicalFilter 1], [LogicalGet 1]] \<and>
            (case run_group_iterator 9 append_to_parent git [] s1 of
               None \<Rightarrow> False
             | Some (seen, git', s2) \<Rightarrow>
                 map group_items (groups s2) = [[LogicalFilter 1, LogicalFilter 1], [LogicalGet 1]] \<and>
                 current_item_index git' = 2)"
    by code_simp
  then obtain tig t1 seen tig' t2 where
    d: "GroupBindingIterator_new 3 append_to_parent 0 ?pat filter_scan_memo = Some (tig, t1)"
       "map group_items (groups t1) = [[LogicalFilter 1], [LogicalGet 1]]"
       "run_group_iterator 9 append_to_parent tig [] t1 = Some (seen, tig', t2)"
       "map group_items (groups t2) = [[LogicalFilter 1, LogicalFilter 1], [LogicalGet 1]]"
       "current_item_index tig' = 2"
    by (auto split: option.splits prod.splits)
  have nl: "Pattern_Type ?pat \<noteq> Leaf" by simp
  from group_iterator_follows_live_group [OF d(1)] nl d(3)
  have "visited tig' = [0..<current_item_index tig']" by blast
  with d(5) have v: "visited tig' = [0, 1]" by (simp add: upt_conv_Cons)
  have two: "\<exists>git s1 seen git' s2.
      GroupBindingIterator_new 3 append_to_parent 0 ?pat filter_scan_memo = Some (git, s1) \<and>
      map group_items (groups s1) = [[LogicalFilter 1], [LogicalGet 1]] \<and>
      run_group_iterator 9 append_to_parent git [] s1 = Some (seen, git', s2) \<and>
      map group_items (groups s2) = [[LogicalFilter 1, LogicalFilter 1], [LogicalGet 1]] \<and>
      visited git' = [0, 1]"
    using d(1-4) v
    by (intro exI [of _ tig] exI [of _ t1] exI [of _ seen] exI [of _ tig'] exI [of _ t2] conjI)
  from one two show ?thesis by (rule conjI)
qed

text \<open>
  Group 0 holds one scan when its iterator is constructed and \<open>append_once\<close> appends a
  second while item 0 is explored: the same constructor explores the new item 1 as well,
  and the iterator binds both items. Group 0 holds one \<open>Filter(g1)\<close> when its iterator is
  constructed and \<open>append_to_parent\<close> appends a second when the iterator of the child
  group \<open>g1\<close> is constructed, during the first \<^verbatim>\<open>HasNext\<close>: the iterator over group 0
  yields two plans.
\<close>

theorem group_iterator_visits_appended_items_counterexample:
  "map_option (explore_calls \<circ> snd)
     (GroupBindingIterator_new 3 append_once 0 (Pattern Get []) scan_memo)
     = Some [(0, 0, ()), (0, 1, ())] \<and>
   map_option fst (bind_group 9 append_once 0 (Pattern Get []) scan_memo)
     = Some [Plan (LogicalGet 1) [], Plan (LogicalGet 99) []] \<and>
   map_option (map group_items \<circ> groups \<circ> snd)
     (GroupBindingIterator_new 3 append_to_parent 0 (Pattern Filter [Pattern Get []])
        filter_scan_memo)
     = Some [[LogicalFilter 1], [LogicalGet 1]] \<and>
   map_option fst (bind_group 9 append_to_parent 0 (Pattern Filter [Pattern Get []])
        filter_scan_memo)
     = Some [Plan (LogicalFilter 1) [Plan (LogicalGet 1) []],
             Plan (LogicalFilter 1) [Plan (LogicalGet 1) []]]"
  by code_simp

section \<open>The odometer of the item iterator\<close>

lemma rank_less: "valid_pos lens pos \<Longrightarrow> rank lens pos < prod_list lens"
proof (induction lens arbitrary: pos)
  case Nil
  then show ?case by (simp add: valid_pos_def)
next
  case (Cons n lens)
  then obtain p ps where pos: "pos = p # ps" by (cases pos) (auto simp: valid_pos_def)
  from Cons.prems pos have p: "p < n" and v: "valid_pos lens ps"
    by (auto simp: valid_pos_def nth_Cons split: nat.splits)
  from Cons.IH [OF v] have "rank lens ps < prod_list lens" .
  moreover from p have "Suc p \<le> n" by simp
  then have "Suc p * prod_list lens \<le> n * prod_list lens" by (rule mult_le_mono1)
  ultimately show ?case using pos by simp
qed

lemma rank_zero: "\<forall>k < length pos. pos ! k = 0 \<Longrightarrow> rank lens pos = 0"
proof (induction lens pos rule: rank.induct)
  case (1 n lens p pos)
  from 1(2) have "p = 0" by auto
  moreover from 1(2) have "\<forall>k < length pos. pos ! k = 0" by auto
  ultimately show ?case using 1(1) by simp
qed simp_all

lemma rank_update:
  "t < length lens \<Longrightarrow> length pos = length lens \<Longrightarrow>
     rank lens (pos[t := v]) + pos ! t * prod_list (drop (Suc t) lens)
       = rank lens pos + v * prod_list (drop (Suc t) lens)"
proof (induction lens arbitrary: pos t)
  case Nil
  then show ?case by simp
next
  case (Cons n lens)
  then obtain p ps where pos: "pos = p # ps" by (cases pos) auto
  show ?case
  proof (cases t)
    case 0
    with pos show ?thesis by simp
  next
    case (Suc t')
    with Cons.prems pos have "t' < length lens" "length ps = length lens" by auto
    from Cons.IH [OF this] show ?thesis using pos Suc by simp
  qed
qed

lemma nth_concat_uniform:
  "\<forall>x \<in> set xs. length (f x) = M \<Longrightarrow> p < length xs \<Longrightarrow> r < M \<Longrightarrow>
     concat (map f xs) ! (p * M + r) = f (xs ! p) ! r"
proof (induction xs arbitrary: p)
  case Nil
  then show ?case by simp
next
  case (Cons x xs)
  show ?case
  proof (cases p)
    case 0
    with Cons.prems show ?thesis by (simp add: nth_append)
  next
    case (Suc p')
    with Cons.prems have "concat (map f xs) ! (p' * M + r) = f (xs ! p') ! r"
      by (intro Cons.IH) auto
    moreover have "length (f x) = M" using Cons.prems by simp
    ultimately show ?thesis using Suc by (simp add: nth_append)
  qed
qed

lemma length_product_lists_prod:
  "length (product_lists xss) = prod_list (map length xss)"
  by (induction xss) (simp_all add: length_concat o_def sum_list_triv)

lemma product_lists_nth_rank:
  "valid_pos (map length bss) pos \<Longrightarrow>
     product_lists bss ! rank (map length bss) pos = map2 nth bss pos"
proof (induction bss arbitrary: pos)
  case Nil
  then show ?case by (simp add: valid_pos_def)
next
  case (Cons bs bss)
  then obtain p ps where pos: "pos = p # ps" by (cases pos) (auto simp: valid_pos_def)
  from Cons.prems pos have p: "p < length bs" and v: "valid_pos (map length bss) ps"
    by (auto simp: valid_pos_def nth_Cons split: nat.splits)
  let ?M = "prod_list (map length bss)"
  have "concat (map (\<lambda>x. map (Cons x) (product_lists bss)) bs) ! (p * ?M + rank (map length bss) ps)
        = map (Cons (bs ! p)) (product_lists bss) ! rank (map length bss) ps"
    using p rank_less [OF v]
    by (intro nth_concat_uniform) (simp_all add: length_product_lists_prod)
  also have "\<dots> = bs ! p # product_lists bss ! rank (map length bss) ps"
    using rank_less [OF v] by (simp add: length_product_lists_prod)
  finally show ?case using Cons.IH [OF v] pos by simp
qed

lemma carry_pos_props:
  assumes "length lens = sz" "length pos = sz" "todo + i = sz"
    and "\<forall>k < sz. pos ! k < lens ! k"
    and "\<forall>k. sz - i \<le> k \<and> k < sz \<longrightarrow> pos ! k = 0"
    and "carry_pos todo i sz lens pos = (i', pos')"
  shows "i \<le> i' \<and> i' \<le> sz \<and> length pos' = sz \<and> (\<forall>k < sz. pos' ! k < lens ! k) \<and>
         (\<forall>k < sz - 1 - i'. pos' ! k = pos ! k) \<and>
         (i' < sz \<longrightarrow> rank lens pos' = rank lens pos + prod_list (drop (sz - i) lens)) \<and>
         (i' = sz \<longrightarrow> rank lens pos + prod_list (drop (sz - i) lens) = prod_list lens)"
  using assms(2-6)
proof (induction todo arbitrary: i pos)
  case 0
  then have "i = sz" "i' = sz" "pos' = pos" by auto
  moreover have "rank lens pos = 0" using 0 \<open>i = sz\<close> by (intro rank_zero) auto
  ultimately show ?case using 0 by simp
next
  case (Suc todo)
  let ?t = "sz - 1 - i"
  from Suc.prems(2) have t: "?t = todo" "?t < sz" "Suc ?t = sz - i" by auto
  let ?w = "prod_list (drop (Suc ?t) lens)"
  have upd: "rank lens (pos[?t := v]) + pos ! ?t * ?w = rank lens pos + v * ?w" for v
    using t(2) assms(1) Suc.prems(1) by (intro rank_update) auto
  show ?case
  proof (cases "pos ! ?t + 1 < lens ! ?t")
    case True
    with Suc.prems(5) have r: "i' = i" "pos' = pos[?t := pos ! ?t + 1]" by auto
    have a: "rank lens pos' = rank lens pos + prod_list (drop (sz - i) lens)"
      using upd [of "pos ! ?t + 1"] r t(3) by simp
    have b: "\<forall>k < sz. pos' ! k < lens ! k"
      using Suc.prems(1,3) True r by (auto simp: nth_list_update)
    have c: "\<forall>k < sz - 1 - i'. pos' ! k = pos ! k" using r by simp
    have d: "length pos' = sz" "i' < sz" using r Suc.prems(1,2) by auto
    show ?thesis
    proof (intro conjI)
      show "i \<le> i'" "i' \<le> sz" using d r(1) by simp_all
      show "length pos' = sz" by (rule d(1))
      show "\<forall>k < sz. pos' ! k < lens ! k" by (rule b)
      show "\<forall>k < sz - 1 - i'. pos' ! k = pos ! k" by (rule c)
      show "i' < sz \<longrightarrow> rank lens pos' = rank lens pos + prod_list (drop (sz - i) lens)"
        using a by simp
      show "i' = sz \<longrightarrow> rank lens pos + prod_list (drop (sz - i) lens) = prod_list lens"
        using d(2) by simp
    qed
  next
    case False
    let ?pos1 = "pos[?t := 0]"
    from False Suc.prems(5) have rec: "carry_pos todo (i + 1) sz lens ?pos1 = (i', pos')" by simp
    have lt: "pos ! ?t < lens ! ?t" using Suc.prems(3) t(2) by blast
    with False have full: "lens ! ?t = pos ! ?t + 1" by simp
    have v1: "\<forall>k < sz. ?pos1 ! k < lens ! k"
      using Suc.prems(1,3) lt by (auto simp: nth_list_update)
    have z1: "\<forall>k. sz - (i + 1) \<le> k \<and> k < sz \<longrightarrow> ?pos1 ! k = 0"
    proof (intro allI impI)
      fix k assume k: "sz - (i + 1) \<le> k \<and> k < sz"
      show "?pos1 ! k = 0"
      proof (cases "k = ?t")
        case True
        then show ?thesis using Suc.prems(1) t(2) by simp
      next
        case False
        with k have "sz - i \<le> k" by auto
        with Suc.prems(4) k False show ?thesis by simp
      qed
    qed
    from Suc.IH [OF _ _ v1 z1 rec] Suc.prems(1,2)
    have ih: "i + 1 \<le> i'" "i' \<le> sz" "length pos' = sz" "\<forall>k < sz. pos' ! k < lens ! k"
      "\<forall>k < sz - 1 - i'. pos' ! k = ?pos1 ! k"
      "i' < sz \<longrightarrow> rank lens pos' = rank lens ?pos1 + prod_list (drop (sz - (i + 1)) lens)"
      "i' = sz \<longrightarrow> rank lens ?pos1 + prod_list (drop (sz - (i + 1)) lens) = prod_list lens"
      by auto
    have "drop ?t lens = lens ! ?t # drop (Suc ?t) lens"
      using t(2) assms(1) by (simp add: Cons_nth_drop_Suc)
    moreover have "sz - (i + 1) = ?t" by simp
    ultimately have w1: "prod_list (drop (sz - (i + 1)) lens) = (pos ! ?t + 1) * ?w"
      using full by simp
    have r1: "rank lens ?pos1 + pos ! ?t * ?w = rank lens pos" using upd [of 0] by simp
    have "\<forall>k < sz - 1 - i'. pos' ! k = pos ! k"
    proof (intro allI impI)
      fix k assume "k < sz - 1 - i'"
      with ih(1,5) have "pos' ! k = ?pos1 ! k" "k \<noteq> ?t" by auto
      then show "pos' ! k = pos ! k" by simp
    qed
    then have c: "\<forall>k < sz - 1 - i'. pos' ! k = pos ! k" .
    have split: "rank lens ?pos1 + (pos ! ?t + 1) * ?w = rank lens pos + ?w"
      using r1 by (simp add: add_mult_distrib)
    have a: "i' < sz \<longrightarrow> rank lens pos' = rank lens pos + prod_list (drop (sz - i) lens)"
    proof
      assume "i' < sz"
      with ih(6) have "rank lens pos' = rank lens ?pos1 + prod_list (drop (sz - (i + 1)) lens)"
        by simp
      then have "rank lens pos' = rank lens ?pos1 + (pos ! ?t + 1) * ?w" by (simp only: w1)
      then have "rank lens pos' = rank lens pos + ?w" by (rule trans [OF _ split])
      then show "rank lens pos' = rank lens pos + prod_list (drop (sz - i) lens)"
        by (simp only: t(3))
    qed
    have b: "i' = sz \<longrightarrow> rank lens pos + prod_list (drop (sz - i) lens) = prod_list lens"
    proof
      assume "i' = sz"
      with ih(7) have "rank lens ?pos1 + prod_list (drop (sz - (i + 1)) lens) = prod_list lens"
        by simp
      then have "rank lens ?pos1 + (pos ! ?t + 1) * ?w = prod_list lens" by (simp only: w1)
      then have "rank lens pos + ?w = prod_list lens" by (rule trans [OF split [symmetric]])
      then show "rank lens pos + prod_list (drop (sz - i) lens) = prod_list lens"
        by (simp only: t(3))
    qed
    show ?thesis
    proof (intro conjI)
      show "i \<le> i'" using ih(1) by simp
      show "i' \<le> sz" by (rule ih(2))
      show "length pos' = sz" by (rule ih(3))
      show "\<forall>k < sz. pos' ! k < lens ! k" by (rule ih(4))
      show "\<forall>k < sz - 1 - i'. pos' ! k = pos ! k" by (rule c)
      show "i' < sz \<longrightarrow> rank lens pos' = rank lens pos + prod_list (drop (sz - i) lens)"
        by (rule a)
      show "i' = sz \<longrightarrow> rank lens pos + prod_list (drop (sz - i) lens) = prod_list lens"
        by (rule b)
    qed
  qed
qed

lemma PopChild_effect:
  assumes "node < length (plan_nodes s)" "node_children (plan_nodes s ! node) = cs" "cs \<noteq> []"
  shows "\<exists>s'. PopChild node s = Some s' \<and> length (plan_nodes s') = length (plan_nodes s) \<and>
           node_children (plan_nodes s' ! node) = butlast cs"
  using assms by (simp add: PopChild_def)

lemma PushChild_effect:
  assumes "node < length (plan_nodes s)" "node_children (plan_nodes s ! node) = cs"
  shows "\<exists>s'. PushChild node c s = Some s' \<and> length (plan_nodes s') = length (plan_nodes s) \<and>
           node_children (plan_nodes s' ! node) = cs @ [c]"
  using assms by (simp add: PushChild_def)

lemma carry_effect:
  fixes it :: ItemBindingIterator and s :: "'r Optimizer"
  assumes "length bss = sz" "length cs = sz" "todo + i = sz"
    and "length pos = sz"
    and "children_bindings it = bss" "children_bindings_pos it = pos"
    and "current_binding it < length (plan_nodes s)"
    and "node_children (plan_nodes s ! current_binding it) = take (sz - i) cs" 
    and "carry_pos todo i sz (map length bss) pos = (i', pos')"
  shows "\<exists>s'. carry todo i sz it s = Some (i', it\<lparr>children_bindings_pos := pos'\<rparr>, s') \<and>
      current_binding it < length (plan_nodes s') \<and>
      node_children (plan_nodes s' ! current_binding it) = take (sz - Suc i') cs"
  using assms(3-9)
proof (induction todo arbitrary: i it s pos)
  case 0
  then have "i = sz" "i' = sz" "pos' = pos" by auto
  with 0 show ?case by simp
next
  case (Suc todo)
  let ?t = "sz - 1 - i"
  let ?node = "current_binding it"
  from Suc.prems(1) have t: "?t < sz" "sz - i = Suc ?t" by auto
  have ne: "take (sz - i) cs \<noteq> []" using t assms(2) by auto
  from PopChild_effect [OF Suc.prems(5,6) ne] obtain s1 where
    s1: "PopChild ?node s = Some s1" "length (plan_nodes s1) = length (plan_nodes s)"
        "node_children (plan_nodes s1 ! ?node) = butlast (take (sz - i) cs)"
    by blast
  have bl: "butlast (take (sz - i) cs) = take ?t cs"
    using t assms(2) by (simp add: butlast_take)
  have n1: "nth_opt (children_bindings it) ?t = Some (bss ! ?t)"
    using Suc.prems(3) t assms(1) by (simp add: nth_opt_def)
  have n2: "nth_opt (children_bindings_pos it) ?t = Some (pos ! ?t)"
    using Suc.prems(2,4) t by (simp add: nth_opt_def)
  have len: "map length bss ! ?t = length (bss ! ?t)" using t assms(1) by simp
  show ?case
  proof (cases "pos ! ?t + 1 < length (bss ! ?t)")
    case True
    with Suc.prems(7) len have r: "i' = i" "pos' = pos[?t := pos ! ?t + 1]" by auto
    show ?thesis
      using s1 n1 n2 True r bl Suc.prems(4,5) by (simp add: Let_def)
  next
    case False
    let ?it1 = "it\<lparr>children_bindings_pos := (children_bindings_pos it)[?t := 0]\<rparr>"
    from False Suc.prems(7) len
    have rec: "carry_pos todo (i + 1) sz (map length bss) (pos[?t := 0]) = (i', pos')" by simp
    have "\<exists>s'. carry todo (i + 1) sz ?it1 s1 = Some (i', ?it1\<lparr>children_bindings_pos := pos'\<rparr>, s') \<and>
      current_binding ?it1 < length (plan_nodes s') \<and>
      node_children (plan_nodes s' ! current_binding ?it1) = take (sz - Suc i') cs"
    proof (rule Suc.IH [OF _ _ _ _ _ _ rec])
      show "todo + (i + 1) = sz" using Suc.prems(1) by simp
      show "length (pos[?t := 0]) = sz" using Suc.prems(2) by simp
      show "children_bindings ?it1 = bss" using Suc.prems(3) by simp
      show "children_bindings_pos ?it1 = pos[?t := 0]" using Suc.prems(4) by simp
      show "current_binding ?it1 < length (plan_nodes s1)" using Suc.prems(5) s1(2) by simp
      show "node_children (plan_nodes s1 ! current_binding ?it1) = take (sz - (i + 1)) cs"
        using s1(3) bl by simp
    qed
    then show ?thesis
      using s1(1) n1 n2 False by (simp add: Let_def)
  qed
qed

lemma replay_effect:
  fixes it :: ItemBindingIterator and s :: "'r Optimizer"
  assumes "\<forall>j \<in> set js. offs + j < length (children_bindings it)"
    and "valid_pos (map length (children_bindings it)) (children_bindings_pos it)"
    and "current_binding it < length (plan_nodes s)"
    and "node_children (plan_nodes s ! current_binding it) = cs"
  shows "\<exists>s'. replay js offs it s = Some s' \<and> current_binding it < length (plan_nodes s') \<and>
      node_children (plan_nodes s' ! current_binding it) =
        cs @ map (\<lambda>j. map2 nth (children_bindings it) (children_bindings_pos it) ! (offs + j)) js"
  using assms(1,3,4)
proof (induction js arbitrary: s cs)
  case Nil
  then show ?case by simp
next
  case (Cons j js)
  let ?bss = "children_bindings it" and ?pos = "children_bindings_pos it"
  let ?k = "offs + j"
  from Cons.prems(1) have k: "?k < length ?bss" by simp
  with assms(2) have kp: "?k < length ?pos" "?pos ! ?k < length (?bss ! ?k)"
    by (auto simp: valid_pos_def)
  have n1: "nth_opt ?bss ?k = Some (?bss ! ?k)" using k by (simp add: nth_opt_def)
  have n2: "nth_opt ?pos ?k = Some (?pos ! ?k)" using kp by (simp add: nth_opt_def)
  have n3: "nth_opt (?bss ! ?k) (?pos ! ?k) = Some (?bss ! ?k ! (?pos ! ?k))"
    using kp by (simp add: nth_opt_def)
  from PushChild_effect [OF Cons.prems(2,3)] obtain s1 where
    s1: "PushChild (current_binding it) (?bss ! ?k ! (?pos ! ?k)) s = Some s1"
        "length (plan_nodes s1) = length (plan_nodes s)"
        "node_children (plan_nodes s1 ! current_binding it) = cs @ [?bss ! ?k ! (?pos ! ?k)]"
    by blast
  have "\<exists>s'. replay js offs it s1 = Some s' \<and> current_binding it < length (plan_nodes s') \<and>
      node_children (plan_nodes s' ! current_binding it) =
        (cs @ [?bss ! ?k ! (?pos ! ?k)]) @ map (\<lambda>j. map2 nth ?bss ?pos ! (offs + j)) js"
    using Cons.prems(1,2) s1(2,3) by (intro Cons.IH) simp_all
  moreover have "map2 nth ?bss ?pos ! ?k = ?bss ! ?k ! (?pos ! ?k)" using k kp by simp
  ultimately show ?case using n1 n2 n3 s1(1) by simp
qed

lemma drop_as_map_nth: "offs + n = length xs \<Longrightarrow> map (\<lambda>j. xs ! (offs + j)) [0..<n] = drop offs xs"
  by (rule nth_equalityI) auto

lemma HasNext_step:
  fixes it :: ItemBindingIterator and s :: "'r Optimizer"
  assumes h: "has_next it" "\<not> first it"
    and v: "valid_pos (map length (children_bindings it)) (children_bindings_pos it)"
    and n: "current_binding it < length (plan_nodes s)"
    and c: "node_children (plan_nodes s ! current_binding it) =
              map2 nth (children_bindings it) (children_bindings_pos it)"
  shows "\<exists>more it' s'. ItemBindingIterator_HasNext it s = Some (more, it', s') \<and>
     (more \<longleftrightarrow> Suc (rank (map length (children_bindings it)) (children_bindings_pos it))
                   < prod_list (map length (children_bindings it))) \<and>
     (more \<longrightarrow> has_next it' \<and> \<not> first it' \<and> children_bindings it' = children_bindings it \<and>
        current_binding it' = current_binding it \<and>
        valid_pos (map length (children_bindings it)) (children_bindings_pos it') \<and>
        rank (map length (children_bindings it)) (children_bindings_pos it') =
          Suc (rank (map length (children_bindings it)) (children_bindings_pos it)) \<and>
        current_binding it < length (plan_nodes s') \<and>
        node_children (plan_nodes s' ! current_binding it) =
          map2 nth (children_bindings it) (children_bindings_pos it'))"
proof -
  define bss where "bss = children_bindings it"
  define pos where "pos = children_bindings_pos it"
  define sz where "sz = length pos"
  define lens where "lens = map length bss"
  define cs where "cs = map2 nth bss pos"
  from v have len: "length bss = sz" "length lens = sz" "length cs = sz" "length pos = sz"
    and val: "\<forall>k < sz. pos ! k < lens ! k"
    by (simp_all add: valid_pos_def bss_def pos_def sz_def lens_def cs_def)
  obtain i' pos' where cp: "carry_pos sz 0 sz lens pos = (i', pos')"
    by (cases "carry_pos sz 0 sz lens pos")
  have "0 \<le> i' \<and> i' \<le> sz \<and> length pos' = sz \<and> (\<forall>k < sz. pos' ! k < lens ! k) \<and>
         (\<forall>k < sz - 1 - i'. pos' ! k = pos ! k) \<and>
         (i' < sz \<longrightarrow> rank lens pos' = rank lens pos + prod_list (drop (sz - 0) lens)) \<and>
         (i' = sz \<longrightarrow> rank lens pos + prod_list (drop (sz - 0) lens) = prod_list lens)"
    using len(2,4) val cp by (intro carry_pos_props) simp_all
  then have p: "i' \<le> sz" "length pos' = sz" "\<forall>k < sz. pos' ! k < lens ! k"
    "\<forall>k < sz - 1 - i'. pos' ! k = pos ! k"
    "i' < sz \<longrightarrow> rank lens pos' = Suc (rank lens pos)"
    "i' = sz \<longrightarrow> Suc (rank lens pos) = prod_list lens"
    using len(2) by simp_all
  have v': "valid_pos lens pos'" using p(2,3) len(2) by (simp add: valid_pos_def)
  let ?it1 = "it\<lparr>children_bindings_pos := pos'\<rparr>"
  have "\<exists>s'. carry sz 0 sz it s = Some (i', ?it1, s') \<and>
      current_binding it < length (plan_nodes s') \<and>
      node_children (plan_nodes s' ! current_binding it) = take (sz - Suc i') cs"
    using len n c cp
    by (intro carry_effect [where bss = bss and pos = pos])
       (simp_all add: bss_def pos_def cs_def lens_def)
  then obtain s1 where s1: "carry sz 0 sz it s = Some (i', ?it1, s1)"
      "current_binding it < length (plan_nodes s1)"
      "node_children (plan_nodes s1 ! current_binding it) = take (sz - Suc i') cs"
    by blast
  show ?thesis
  proof (cases "i' = sz")
    case True
    with p(6) have "\<not> Suc (rank lens pos) < prod_list lens" by simp
    moreover have "ItemBindingIterator_HasNext it s = Some (False, ?it1\<lparr>has_next := False\<rparr>, s1)"
      using h s1(1) True by (simp add: ItemBindingIterator_HasNext_def sz_def pos_def)
    ultimately show ?thesis by (auto simp: lens_def bss_def pos_def)
  next
    case False
    with p(1) have lt: "i' < sz" by simp
    with p(5) have r: "rank lens pos' = Suc (rank lens pos)" by simp
    from rank_less [OF v'] r have more: "Suc (rank lens pos) < prod_list lens" by simp
    let ?offs = "sz - 1 - i'"
    let ?cs' = "map2 nth bss pos'"
    have "\<exists>s'. replay [0..<i' + 1] ?offs ?it1 s1 = Some s' \<and>
      current_binding ?it1 < length (plan_nodes s') \<and>
      node_children (plan_nodes s' ! current_binding ?it1) =
        take (sz - Suc i') cs @
        map (\<lambda>j. map2 nth (children_bindings ?it1) (children_bindings_pos ?it1) ! (?offs + j))
          [0..<i' + 1]"
      using lt len v' s1(2,3) by (intro replay_effect) (auto simp: bss_def lens_def)
    then obtain s2 where s2: "replay [0..<i' + 1] ?offs ?it1 s1 = Some s2"
      "current_binding it < length (plan_nodes s2)"
      "node_children (plan_nodes s2 ! current_binding it) =
        take ?offs cs @ map (\<lambda>j. ?cs' ! (?offs + j)) [0..<i' + 1]"
      by (auto simp: bss_def)
    have "map (\<lambda>j. ?cs' ! (?offs + j)) [0..<i' + 1] = drop ?offs ?cs'"
      using lt p(2) len(1) by (intro drop_as_map_nth) simp
    moreover have "take ?offs cs = take ?offs ?cs'"
      using p(2,4) len lt by (intro nth_equalityI) (simp_all add: cs_def)
    ultimately have ch: "node_children (plan_nodes s2 ! current_binding it) = ?cs'"
      using s2(3) by simp
    have "ItemBindingIterator_HasNext it s = Some (True, ?it1, s2)"
      using h s1(1) s2(1) False by (simp add: ItemBindingIterator_HasNext_def sz_def pos_def)
    with more h v' r s2(2) ch show ?thesis by (auto simp: lens_def bss_def pos_def)
  qed
qed

lemma run_from_rank:
  fixes it :: ItemBindingIterator and s :: "'r Optimizer"
  assumes "has_next it" "\<not> first it" "children_bindings it = bss"
    and "valid_pos (map length bss) (children_bindings_pos it)"
    and "current_binding it < length (plan_nodes s)"
    and "node_children (plan_nodes s ! current_binding it) = map2 nth bss (children_bindings_pos it)"
    and "rank (map length bss) (children_bindings_pos it) + d + 1 = prod_list (map length bss)"
    and "d < fuel"
  shows "\<exists>it' s'. run_item_iterator fuel it seen s =
           Some (seen @ map (nth (product_lists bss))
                   [Suc (rank (map length bss) (children_bindings_pos it))..<prod_list (map length bss)],
                 it', s')"
  using assms
proof (induction d arbitrary: it s seen fuel)
  case 0
  let ?r = "rank (map length bss) (children_bindings_pos it)"
  from 0 obtain fuel' where fuel: "fuel = Suc fuel'" by (cases fuel) auto
  from HasNext_step [of it s] 0(1-6)
  obtain more it' s' where st: "ItemBindingIterator_HasNext it s = Some (more, it', s')"
    "more \<longleftrightarrow> Suc ?r < prod_list (map length bss)"
    by auto
  from 0(7) st(2) have "\<not> more" "Suc ?r = prod_list (map length bss)" by simp_all
  with st(1) fuel show ?case by simp
next
  case (Suc d)
  let ?r = "rank (map length bss) (children_bindings_pos it)"
  let ?T = "prod_list (map length bss)"
  let ?L = "product_lists bss"
  from Suc.prems obtain fuel' where fuel: "fuel = Suc fuel'" "d < fuel'" by (cases fuel) auto
  from Suc.prems(7) have lt: "Suc ?r < ?T" by simp
  from HasNext_step [of it s] Suc.prems(1-6) lt
  obtain it' s' where st: "ItemBindingIterator_HasNext it s = Some (True, it', s')"
    "has_next it'" "\<not> first it'" "children_bindings it' = bss"
    "current_binding it' = current_binding it"
    "valid_pos (map length bss) (children_bindings_pos it')"
    "rank (map length bss) (children_bindings_pos it') = Suc ?r"
    "current_binding it < length (plan_nodes s')"
    "node_children (plan_nodes s' ! current_binding it) = map2 nth bss (children_bindings_pos it')"
    by auto
  have read: "nth_opt (plan_nodes s') (ItemBindingIterator_Next it') =
                Some (plan_nodes s' ! current_binding it)"
    using st(5,8) by (simp add: nth_opt_def ItemBindingIterator_Next_def)
  have yield: "node_children (plan_nodes s' ! current_binding it) = ?L ! Suc ?r"
    using product_lists_nth_rank [OF st(6)] st(7,9) by simp
  have "\<exists>it'' s''. run_item_iterator fuel' it' (seen @ [?L ! Suc ?r]) s' =
           Some ((seen @ [?L ! Suc ?r]) @ map (nth ?L)
                   [Suc (rank (map length bss) (children_bindings_pos it'))..<?T], it'', s'')"
    using st(2-9) Suc.prems(7) fuel(2) by (intro Suc.IH) simp_all
  then obtain it'' s'' where
    "run_item_iterator fuel' it' (seen @ [?L ! Suc ?r]) s' =
       Some (seen @ ?L ! Suc ?r # map (nth ?L) [Suc (Suc ?r)..<?T], it'', s'')"
    using st(7) by auto
  moreover have "[Suc ?r..<?T] = Suc ?r # [Suc (Suc ?r)..<?T]" using lt by (simp add: upt_conv_Cons)
  ultimately show ?case using st(1) read yield fuel(1) by simp
qed

lemma map2_nth_zeros: "map2 nth bss (replicate (length bss) 0) = map (\<lambda>b. b ! 0) bss"
  by (rule nth_equalityI) simp_all

lemma run_from_start:
  fixes it :: ItemBindingIterator and s :: "'r Optimizer"
  assumes "has_next it" "first it" "children_bindings it = bss"
    and "children_bindings_pos it = replicate (length bss) 0"
    and "\<forall>b \<in> set bss. b \<noteq> []"
    and "current_binding it < length (plan_nodes s)"
    and "node_children (plan_nodes s ! current_binding it) = map (\<lambda>b. b ! 0) bss"
    and "prod_list (map length bss) < fuel"
  shows "\<exists>it' s'. run_item_iterator fuel it [] s = Some (product_lists bss, it', s')"
proof -
  let ?pos = "replicate (length bss) 0"
  let ?T = "prod_list (map length bss)"
  let ?L = "product_lists bss"
  let ?it1 = "it\<lparr>first := False\<rparr>"
  have v: "valid_pos (map length bss) ?pos" using assms(5) by (simp add: valid_pos_def)
  have r0: "rank (map length bss) ?pos = 0" by (intro rank_zero) simp
  from rank_less [OF v] r0 have T: "0 < ?T" by simp
  then obtain d where d: "?T = Suc d" by (cases ?T) auto
  with assms(8) obtain fuel' where fuel: "fuel = Suc fuel'" "d < fuel'" by (cases fuel) auto
  have first: "ItemBindingIterator_HasNext it s = Some (True, ?it1, s)"
    using assms(1,2) by (simp add: ItemBindingIterator_HasNext_def)
  have read: "nth_opt (plan_nodes s) (ItemBindingIterator_Next ?it1) =
                Some (plan_nodes s ! current_binding it)"
    using assms(6) by (simp add: nth_opt_def ItemBindingIterator_Next_def)
  have yield: "node_children (plan_nodes s ! current_binding it) = ?L ! 0"
    using product_lists_nth_rank [OF v] r0 assms(7) by (simp add: map2_nth_zeros)
  have "\<exists>it' s'. run_item_iterator fuel' ?it1 ([] @ [?L ! 0]) s =
           Some (([] @ [?L ! 0]) @ map (nth ?L)
                   [Suc (rank (map length bss) (children_bindings_pos ?it1))..<?T], it', s')"
    using assms(1,3,4,6,7) v r0 d fuel(2) by (intro run_from_rank [where d = d]) (simp_all add: map2_nth_zeros)
  then obtain it' s' where
    "run_item_iterator fuel' ?it1 [?L ! 0] s = Some (?L ! 0 # map (nth ?L) [Suc 0..<?T], it', s')"
    using assms(4) r0 by auto
  moreover have "?L ! 0 # map (nth ?L) [Suc 0..<?T] = map (nth ?L) [0..<?T]"
    using T by (simp add: upt_conv_Cons)
  moreover have "map (nth ?L) [0..<?T] = ?L"
    using map_nth [of ?L] by (simp add: length_product_lists_prod)
  ultimately show ?thesis using first read yield fuel(1) by simp
qed

lemma run_without_next:
  fixes it :: ItemBindingIterator and s :: "'r Optimizer"
  shows "\<not> has_next it \<Longrightarrow> run_item_iterator (Suc fuel) it [] s = Some ([], it, s)"
  by (simp add: ItemBindingIterator_HasNext_def)

lemma keeps_refl: "keeps n s s"
  by (simp add: keeps_def)

lemma keeps_trans: "keeps n a b \<Longrightarrow> keeps n b c \<Longrightarrow> keeps n a c"
  by (simp add: keeps_def)

lemma keeps_mono: "keeps n a b \<Longrightarrow> m \<le> n \<Longrightarrow> keeps m a b"
  by (simp add: keeps_def)

lemma keeps_length: "keeps n a b \<Longrightarrow> length (plan_nodes a) \<le> length (plan_nodes b)"
  by (simp add: keeps_def)

lemma PopChild_keeps: "PopChild node s = Some s' \<Longrightarrow> n \<le> node \<Longrightarrow> keeps n s s'"
  by (auto simp: PopChild_def keeps_def split: if_splits)

lemma PushChild_keeps: "PushChild node c s = Some s' \<Longrightarrow> n \<le> node \<Longrightarrow> keeps n s s'"
  by (auto simp: PushChild_def keeps_def split: if_splits)

lemma make_shared_keeps: "make_shared nd s = (node, s') \<Longrightarrow> keeps (length (plan_nodes s)) s s' \<and>
    node = length (plan_nodes s) \<and> length (plan_nodes s') = Suc (length (plan_nodes s)) \<and>
    plan_nodes s' ! node = nd \<and> groups s' = groups s"
  by (auto simp: make_shared_def keeps_def nth_append)

lemma carry_keeps:
  "carry todo i sz it s = Some (i', it', s') \<Longrightarrow> n \<le> current_binding it \<Longrightarrow>
     keeps n s s' \<and> current_binding it' = current_binding it"
proof (induction todo arbitrary: i it s)
  case 0
  then show ?case by (simp add: keeps_refl)
next
  case (Suc todo)
  obtain s1 where s1: "PopChild (current_binding it) s = Some s1"
    using Suc.prems(1) by (cases "PopChild (current_binding it) s") auto
  obtain cb where cb: "nth_opt (children_bindings it) (sz - 1 - i) = Some cb"
    using Suc.prems(1) s1 by (cases "nth_opt (children_bindings it) (sz - 1 - i)") auto
  obtain p where p: "nth_opt (children_bindings_pos it) (sz - 1 - i) = Some p"
    using Suc.prems(1) s1 cb by (cases "nth_opt (children_bindings_pos it) (sz - 1 - i)") auto
  have rest: "(if Suc p < length cb
       then Some (i, it\<lparr>children_bindings_pos := (children_bindings_pos it)[sz - 1 - i := Suc p]\<rparr>, s1)
       else carry todo (i + 1) sz
            (it\<lparr>children_bindings_pos := (children_bindings_pos it)[sz - 1 - i := 0]\<rparr>) s1)
       = Some (i', it', s')"
    using Suc.prems(1) s1 cb p by (simp add: Let_def)
  from PopChild_keeps [OF s1 Suc.prems(2)] have k1: "keeps n s s1" .
  show ?case
  proof (cases "Suc p < length cb")
    case True
    with rest k1 show ?thesis by auto
  next
    case False
    with rest have "carry todo (i + 1) sz
            (it\<lparr>children_bindings_pos := (children_bindings_pos it)[sz - 1 - i := 0]\<rparr>) s1
       = Some (i', it', s')" by simp
    from Suc.IH [OF this] Suc.prems(2) have "keeps n s1 s'" "current_binding it' = current_binding it"
      by simp_all
    with k1 show ?thesis by (auto intro: keeps_trans)
  qed
qed

lemma replay_keeps:
  "replay js offs it s = Some s' \<Longrightarrow> n \<le> current_binding it \<Longrightarrow> keeps n s s'"
proof (induction js arbitrary: s)
  case Nil
  then show ?case by (simp add: keeps_refl)
next
  case (Cons j js)
  from Cons.prems(1) obtain b s1 where
    s1: "PushChild (current_binding it) b s = Some s1" and rest: "replay js offs it s1 = Some s'"
    by (auto split: bind_splits)
  from PushChild_keeps [OF s1 Cons.prems(2)] Cons.IH [OF rest Cons.prems(2)]
  show ?case by (rule keeps_trans)
qed

lemma ItemBindingIterator_HasNext_keeps:
  assumes "ItemBindingIterator_HasNext it s = Some (b, it', s')" "n \<le> current_binding it"
  shows "keeps n s s' \<and> current_binding it' = current_binding it"
proof (cases "has_next it \<and> \<not> first it")
  case False
  with assms(1) show ?thesis
    by (auto simp: ItemBindingIterator_HasNext_def keeps_refl split: if_splits)
next
  case True
  let ?sz = "length (children_bindings_pos it)"
  from True assms(1) obtain i it1 s1 where
    c: "carry ?sz 0 ?sz it s = Some (i, it1, s1)"
    and rest: "(if i = ?sz then Some (False, it1\<lparr>has_next := False\<rparr>, s1)
        else do { s'' \<leftarrow> replay [0..<i + 1] (?sz - 1 - i) it1 s1; Some (True, it1, s'') })
        = Some (b, it', s')"
    by (auto simp: ItemBindingIterator_HasNext_def Let_def split: bind_splits)
  from carry_keeps [OF c assms(2)] have k1: "keeps n s s1" "current_binding it1 = current_binding it"
    by simp_all
  show ?thesis
  proof (cases "i = ?sz")
    case True
    with rest k1 show ?thesis by auto
  next
    case False
    with rest obtain s2 where r: "replay [0..<i + 1] (?sz - 1 - i) it1 s1 = Some s2"
      and e: "it' = it1" "s' = s2"
      by (auto split: bind_splits)
    from replay_keeps [OF r] k1(2) assms(2) have "keeps n s1 s2" by simp
    with k1 e show ?thesis by (auto intro: keeps_trans)
  qed
qed

lemma collect_children_post:
  fixes it :: ItemBindingIterator and s :: "'r Optimizer"
  assumes fr: "frames bc"
    and "collect_children todo bc cgs cps i it s = Some (it', s')"
    and "todo + i = length (children_bindings it)"
    and "current_binding it < length (plan_nodes s)"
    and "node_children (plan_nodes s ! current_binding it) =
           map (\<lambda>b. b ! 0) (take i (children_bindings it))"
    and "\<forall>b \<in> set (take i (children_bindings it)). b \<noteq> []"
    and "\<not> has_next it"
  shows "keeps (current_binding it) s s' \<and> current_binding it' = current_binding it \<and>
     first it' = first it \<and> children_bindings_pos it' = children_bindings_pos it \<and>
     length (children_bindings it') = length (children_bindings it) \<and>
     current_binding it < length (plan_nodes s') \<and>
     (has_next it' \<longrightarrow>
         (\<forall>b \<in> set (children_bindings it'). b \<noteq> []) \<and>
           node_children (plan_nodes s' ! current_binding it) =
             map (\<lambda>b. b ! 0) (children_bindings it')) \<and>
      (\<not> has_next it' \<longrightarrow> (\<exists>b \<in> set (children_bindings it'). b = []))"
  using assms(2-7)
proof (induction todo arbitrary: i it s)
  case 0
  then show ?case by (auto simp: keeps_refl)
next
  case (Suc todo)
  let ?node = "current_binding it"
  let ?bss = "children_bindings it"
  from Suc.prems(2) have i: "i < length ?bss" by simp
  obtain cg where cg: "nth_opt cgs i = Some cg"
    using Suc.prems(1) by (cases "nth_opt cgs i") auto
  obtain cp where cp: "nth_opt cps i = Some cp"
    using Suc.prems(1) cg by (cases "nth_opt cps i") auto
  obtain cbs s1 where b: "bc cg cp s = Some (cbs, s1)"
    using Suc.prems(1) cg cp by (cases "bc cg cp s") auto
  let ?it1 = "it\<lparr>children_bindings := ?bss[i := cbs]\<rparr>"
  from fr b have "keeps (length (plan_nodes s)) s s1" by (auto simp: frames_def)
  with Suc.prems(3) have k1: "keeps ?node s s1" "?node < length (plan_nodes s1)"
    "plan_nodes s1 ! ?node = plan_nodes s ! ?node"
    by (auto simp: keeps_def)
  show ?case
  proof (cases "cbs = []")
    case True
    with Suc.prems(1) cg cp b have e: "it' = ?it1" "s' = s1" by simp_all
    have "?bss[i := cbs] ! i = []" using i True by simp
    then have "\<exists>b \<in> set (?bss[i := cbs]). b = []"
      using i by (metis length_list_update nth_mem)
    with e k1 Suc.prems(6) show ?thesis by simp
  next
    case False
    with Suc.prems(1) cg cp b obtain s2 where
      s2: "PushChild ?node (cbs ! 0) s1 = Some s2"
      and rest: "collect_children todo bc cgs cps (i + 1) ?it1 s2 = Some (it', s')"
      by (cases "PushChild ?node (cbs ! 0) s1") (auto simp: Let_def)
    from PushChild_effect [OF k1(2) refl, of "cbs ! 0"] s2
    have p: "length (plan_nodes s2) = length (plan_nodes s1)"
      "node_children (plan_nodes s2 ! ?node) = node_children (plan_nodes s1 ! ?node) @ [cbs ! 0]"
      by auto
    have k2: "keeps ?node s1 s2" using PushChild_keeps [OF s2] by simp
    have tk: "take (i + 1) (?bss[i := cbs]) = take i ?bss @ [cbs]"
      using i by (simp add: take_Suc_conv_app_nth)
    have "keeps (current_binding ?it1) s2 s' \<and> current_binding it' = current_binding ?it1 \<and>
      first it' = first ?it1 \<and> children_bindings_pos it' = children_bindings_pos ?it1 \<and>
      length (children_bindings it') = length (children_bindings ?it1) \<and>
      current_binding ?it1 < length (plan_nodes s') \<and>
      (has_next it' \<longrightarrow>
          (\<forall>b \<in> set (children_bindings it'). b \<noteq> []) \<and>
            node_children (plan_nodes s' ! current_binding ?it1) =
              map (\<lambda>b. b ! 0) (children_bindings it')) \<and>
       (\<not> has_next it' \<longrightarrow> (\<exists>b \<in> set (children_bindings it'). b = []))"
    proof (rule Suc.IH [OF rest])
      show "todo + (i + 1) = length (children_bindings ?it1)" using Suc.prems(2) by simp
      show "current_binding ?it1 < length (plan_nodes s2)" using k1(2) p(1) by simp
      show "node_children (plan_nodes s2 ! current_binding ?it1) =
              map (\<lambda>b. b ! 0) (take (i + 1) (children_bindings ?it1))"
        using p(2) k1(3) Suc.prems(4) tk by simp
      show "\<forall>b \<in> set (take (i + 1) (children_bindings ?it1)). b \<noteq> []"
        using Suc.prems(5) False tk by simp
      show "\<not> has_next ?it1" using Suc.prems(6) by simp
    qed
    moreover have "keeps ?node s s2" using k1(1) k2 by (rule keeps_trans)
    ultimately show ?thesis by (auto intro: keeps_trans)
  qed
qed

lemma ItemBindingIterator_new_post:
  fixes s :: "'r Optimizer"
  assumes fr: "frames bc"
    and new: "ItemBindingIterator_new bc gid idx pat s = Some (it, s1)"
    and g: "nth_opt (groups s) gid = Some g" "nth_opt (group_items g) idx = Some item"
  shows "keeps (length (plan_nodes s)) s s1 \<and> current_binding it = length (plan_nodes s) \<and>
     current_binding it < length (plan_nodes s1) \<and> first it \<and>
     (Operator_type item = Pattern_Type pat \<and>
      length (GetChildren item) = length (Pattern_Children pat) \<longrightarrow>
        length (children_bindings it) = length (GetChildren item) \<and>
        children_bindings_pos it = replicate (length (GetChildren item)) 0 \<and>
        (has_next it \<longrightarrow>
            (\<forall>b \<in> set (children_bindings it). b \<noteq> []) \<and>
              node_children (plan_nodes s1 ! current_binding it) =
                map (\<lambda>b. b ! 0) (children_bindings it)) \<and>
         (\<not> has_next it \<longrightarrow> (\<exists>b \<in> set (children_bindings it). b = [])))"
proof -
  let ?n = "length (plan_nodes s)"
  let ?s0 = "s\<lparr>plan_nodes := plan_nodes s @ [\<lparr>node_op = item, node_children = []\<rparr>]\<rparr>"
  let ?it0 = "\<lparr>item_group_id = gid, item_index = idx, item_pattern = pat, first = True,
                has_next = False, current_binding = ?n, children_bindings = [],
                children_bindings_pos = []\<rparr>"
  let ?m = "length (GetChildren item)"
  let ?it1 = "?it0\<lparr>children_bindings := replicate ?m [], children_bindings_pos := replicate ?m 0\<rparr>"
  have k0: "keeps ?n s ?s0" by (simp add: keeps_def nth_append)
  show ?thesis
  proof (cases "Operator_type item = Pattern_Type pat \<and> ?m = length (Pattern_Children pat)")
    case False
    with new g have "it = ?it0" "s1 = ?s0"
      by (auto simp: ItemBindingIterator_new_def make_shared_def Let_def split: if_splits)
    with False k0 show ?thesis by simp
  next
    case True
    with new g have run: "collect_children ?m bc (GetChildren item) (Pattern_Children pat) 0 ?it1 ?s0
        = Some (it, s1)"
      by (simp add: ItemBindingIterator_new_def make_shared_def Let_def)
    have "keeps (current_binding ?it1) ?s0 s1 \<and> current_binding it = current_binding ?it1 \<and>
      first it = first ?it1 \<and> children_bindings_pos it = children_bindings_pos ?it1 \<and>
      length (children_bindings it) = length (children_bindings ?it1) \<and>
      current_binding ?it1 < length (plan_nodes s1) \<and>
      (has_next it \<longrightarrow>
          (\<forall>b \<in> set (children_bindings it). b \<noteq> []) \<and>
            node_children (plan_nodes s1 ! current_binding ?it1) =
              map (\<lambda>b. b ! 0) (children_bindings it)) \<and>
       (\<not> has_next it \<longrightarrow> (\<exists>b \<in> set (children_bindings it). b = []))"
      by (rule collect_children_post [OF fr run]) simp_all
    then have post: "keeps ?n ?s0 s1" "current_binding it = ?n" "first it"
      "children_bindings_pos it = replicate ?m 0" "length (children_bindings it) = ?m"
      "?n < length (plan_nodes s1)"
      "has_next it \<longrightarrow>
          (\<forall>b \<in> set (children_bindings it). b \<noteq> []) \<and>
            node_children (plan_nodes s1 ! ?n) = map (\<lambda>b. b ! 0) (children_bindings it)"
       "\<not> has_next it \<longrightarrow> (\<exists>b \<in> set (children_bindings it). b = [])"
      by simp_all
    from k0 post(1) have "keeps ?n s s1" by (rule keeps_trans)
    with post show ?thesis by simp
  qed
qed

lemma ItemBindingIterator_new_keeps:
  fixes s :: "'r Optimizer"
  assumes "frames bc" "ItemBindingIterator_new bc gid idx pat s = Some (it, s1)"
  shows "keeps (length (plan_nodes s)) s s1 \<and> current_binding it = length (plan_nodes s)"
proof -
  obtain g where g: "nth_opt (groups s) gid = Some g"
    using assms(2) by (cases "nth_opt (groups s) gid") (auto simp: ItemBindingIterator_new_def)
  obtain item where item: "nth_opt (group_items g) idx = Some item"
    using assms(2) g
    by (cases "nth_opt (group_items g) idx") (auto simp: ItemBindingIterator_new_def)
  from ItemBindingIterator_new_post [OF assms g item] show ?thesis by simp
qed

lemma scan_items_keeps:
  fixes s :: "'r Optimizer"
  assumes fr: "frames bc"
    and "scan_items fuel bc git s = Some (git', s')"
    and "n \<le> length (plan_nodes s)"
    and "\<forall>it. current_iterator git = Some it \<longrightarrow> n \<le> current_binding it"
  shows "keeps n s s' \<and> (\<forall>it. current_iterator git' = Some it \<longrightarrow> n \<le> current_binding it)"
  using assms(2-4)
proof (induction fuel arbitrary: git s)
  case 0
  then show ?case by simp
next
  case (Suc fuel)
  obtain g where g: "target_group_ref (groups_size git) (group_id git) s = Some g"
    using Suc.prems(1) by (cases "target_group_ref (groups_size git) (group_id git) s") auto
  show ?case
  proof (cases "current_item_index git < length (group_items g)")
    case False
    with Suc.prems g show ?thesis by (simp add: keeps_refl)
  next
    case True
    let ?git1 = "git\<lparr>visited := visited git @ [current_item_index git]\<rparr>"
    obtain it s1 where new: "ItemBindingIterator_new bc (group_id git) (current_item_index git)
        (pattern git) s = Some (it, s1)"
      using Suc.prems(1) g True
      by (cases "ItemBindingIterator_new bc (group_id git) (current_item_index git) (pattern git) s")
         auto
    obtain b it' s2 where hn: "ItemBindingIterator_HasNext it s1 = Some (b, it', s2)"
      using Suc.prems(1) g True new
      by (cases "ItemBindingIterator_HasNext it s1") (auto simp: Let_def)
    from ItemBindingIterator_new_keeps [OF fr new]
    have k1: "keeps (length (plan_nodes s)) s s1" "current_binding it = length (plan_nodes s)"
      by simp_all
    from k1(2) Suc.prems(2) have n: "n \<le> current_binding it" by simp
    from ItemBindingIterator_HasNext_keeps [OF hn n]
    have k2: "keeps n s1 s2" "current_binding it' = current_binding it" by simp_all
    from k1(1) Suc.prems(2) have "keeps n s s1" by (rule keeps_mono)
    with k2(1) have k: "keeps n s s2" by (rule keeps_trans [rotated])
    show ?thesis
    proof (cases b)
      case True
      with Suc.prems(1) g \<open>current_item_index git < length (group_items g)\<close> new hn
      have "git' = ?git1\<lparr>current_iterator := Some it'\<rparr>" "s' = s2" by (simp_all add: Let_def)
      with k k2(2) n show ?thesis by simp
    next
      case False
      let ?git2 = "?git1\<lparr>current_iterator := None, current_item_index := current_item_index git + 1\<rparr>"
      from False Suc.prems(1) g \<open>current_item_index git < length (group_items g)\<close> new hn
      have rest: "scan_items fuel bc ?git2 s2 = Some (git', s')" by (simp add: Let_def)
      have "n \<le> length (plan_nodes s2)"
        using Suc.prems(2) keeps_length [OF k] by simp
      from Suc.IH [OF rest this]
      have "keeps n s2 s'" "\<forall>it. current_iterator git' = Some it \<longrightarrow> n \<le> current_binding it"
        by simp_all
      with k show ?thesis by (auto intro: keeps_trans)
    qed
  qed
qed

lemma GroupBindingIterator_HasNext_keeps:
  fixes s :: "'r Optimizer"
  assumes fr: "frames bc"
    and run: "GroupBindingIterator_HasNext fuel bc git s = Some (b, git', s')"
    and n: "n \<le> length (plan_nodes s)"
    and inv: "\<forall>it. current_iterator git = Some it \<longrightarrow> n \<le> current_binding it"
  shows "keeps n s s' \<and> (\<forall>it. current_iterator git' = Some it \<longrightarrow> n \<le> current_binding it)"
proof (cases "Pattern_Type (pattern git) = Leaf")
  case True
  with run inv show ?thesis by (auto simp: GroupBindingIterator_HasNext_def keeps_refl)
next
  case False
  let ?step = "(case current_iterator git of
             None \<Rightarrow> Some (git, s)
           | Some it \<Rightarrow> do {
               (more, it', s') \<leftarrow> ItemBindingIterator_HasNext it s;
               if \<not> more
               then Some (git\<lparr>current_iterator := None,
                               current_item_index := current_item_index git + 1\<rparr>, s')
               else Some (git\<lparr>current_iterator := Some it'\<rparr>, s')
             })"
  obtain git1 s1 where a: "?step = Some (git1, s1)"
    using run False by (cases ?step) (auto simp: GroupBindingIterator_HasNext_def)
  have c: "(if current_iterator git1 = None then scan_items fuel bc git1 s1 else Some (git1, s1))
        = Some (git', s')"
    using run False a
    by (cases "if current_iterator git1 = None then scan_items fuel bc git1 s1 else Some (git1, s1)")
       (auto simp: GroupBindingIterator_HasNext_def)
  have k1: "keeps n s s1 \<and> (\<forall>it. current_iterator git1 = Some it \<longrightarrow> n \<le> current_binding it)"
  proof (cases "current_iterator git")
    case None
    with a show ?thesis by (auto simp: keeps_refl)
  next
    case (Some it)
    with a obtain m it' s2 where hn: "ItemBindingIterator_HasNext it s = Some (m, it', s2)"
      by (cases "ItemBindingIterator_HasNext it s") auto
    from inv Some have "n \<le> current_binding it" by simp
    from ItemBindingIterator_HasNext_keeps [OF hn this]
    have "keeps n s s2" "current_binding it' = current_binding it" by simp_all
    with a Some hn \<open>n \<le> current_binding it\<close> show ?thesis by (cases m) auto
  qed
  show ?thesis
  proof (cases "current_iterator git1 = None")
    case True
    with c have sc: "scan_items fuel bc git1 s1 = Some (git', s')" by simp
    have "n \<le> length (plan_nodes s1)" using n k1 keeps_length by fastforce
    from scan_items_keeps [OF fr sc this] k1 show ?thesis by (auto intro: keeps_trans)
  next
    case False
    with c k1 show ?thesis by auto
  qed
qed

lemma GroupBindingIterator_Next_keeps:
  fixes s :: "'r Optimizer"
  assumes run: "GroupBindingIterator_Next git s = Some (node, git', s')"
    and n: "n \<le> length (plan_nodes s)"
    and inv: "\<forall>it. current_iterator git = Some it \<longrightarrow> n \<le> current_binding it"
  shows "keeps n s s' \<and> (\<forall>it. current_iterator git' = Some it \<longrightarrow> n \<le> current_binding it)"
  using assms
  by (auto simp: GroupBindingIterator_Next_def make_shared_def keeps_def nth_append Let_def
           split: if_splits bind_splits)

lemma collect_bindings_keeps:
  fixes s :: "'r Optimizer"
  assumes fr: "frames bc"
    and "collect_bindings fuel bc git acc s = Some (bs, git', s')"
    and "n \<le> length (plan_nodes s)"
    and "\<forall>it. current_iterator git = Some it \<longrightarrow> n \<le> current_binding it"
  shows "keeps n s s'"
  using assms(2-4)
proof (induction fuel arbitrary: git acc s)
  case 0
  then show ?case by simp
next
  case (Suc fuel)
  obtain b git1 s1 where hn: "GroupBindingIterator_HasNext fuel bc git s = Some (b, git1, s1)"
    using Suc.prems(1) by (cases "GroupBindingIterator_HasNext fuel bc git s") auto
  from GroupBindingIterator_HasNext_keeps [OF fr hn Suc.prems(2,3)]
  have k1: "keeps n s s1" "\<forall>it. current_iterator git1 = Some it \<longrightarrow> n \<le> current_binding it"
    by simp_all
  have n1: "n \<le> length (plan_nodes s1)" using Suc.prems(2) keeps_length [OF k1(1)] by simp
  show ?case
  proof (cases b)
    case False
    with Suc.prems(1) hn k1 show ?thesis by simp
  next
    case True
    obtain node git2 s2 where nx: "GroupBindingIterator_Next git1 s1 = Some (node, git2, s2)"
      using Suc.prems(1) hn True by (cases "GroupBindingIterator_Next git1 s1") auto
    from GroupBindingIterator_Next_keeps [OF nx n1 k1(2)]
    have k2: "keeps n s1 s2" "\<forall>it. current_iterator git2 = Some it \<longrightarrow> n \<le> current_binding it"
      by simp_all
    have n2: "n \<le> length (plan_nodes s2)" using n1 keeps_length [OF k2(1)] by simp
    from Suc.prems(1) hn True nx
    have rest: "collect_bindings fuel bc git2 (acc @ [node]) s2 = Some (bs, git', s')" by simp
    from Suc.IH [OF rest n2 k2(2)] have "keeps n s2 s'" .
    with k1(1) k2(1) show ?thesis by (blast intro: keeps_trans)
  qed
qed

lemma bind_child_frames: "frames (bind_child fuel ExploreItem)"
proof (induction fuel)
  case 0
  show ?case by (simp add: frames_def)
next
  case (Suc fuel)
  show ?case unfolding frames_def
  proof (intro allI impI)
    fix gid pat and s :: "'a Optimizer" and bs s'
    assume run: "bind_child (Suc fuel) ExploreItem gid pat s = Some (bs, s')"
    obtain git s1 where new: "GroupBindingIterator_new fuel ExploreItem gid pat s = Some (git, s1)"
      using run by (cases "GroupBindingIterator_new fuel ExploreItem gid pat s") auto
    obtain git' where cb: "collect_bindings fuel (bind_child fuel ExploreItem) git [] s1
        = Some (bs, git', s')"
      using run new
      by (cases "collect_bindings fuel (bind_child fuel ExploreItem) git [] s1") auto
    from new have p: "plan_nodes s1 = plan_nodes s" "current_iterator git = None"
      by (auto simp: GroupBindingIterator_new_def split: bind_splits dest: explore_loop_frame)
    from collect_bindings_keeps [OF Suc.IH cb, of "length (plan_nodes s)"] p
    show "keeps (length (plan_nodes s)) s s'" by (simp add: keeps_def)
  qed
qed

lemma collect_children_yields:
  fixes it :: ItemBindingIterator and s :: "'r Optimizer"
  assumes "collect_children todo bc cgs cps i it s = Some (it', s')"
    and "todo + i = length (children_bindings it)"
    and "\<forall>k < i. \<exists>sa sb. bc (cgs ! k) (cps ! k) sa = Some (children_bindings it ! k, sb)"
    and "\<not> has_next it"
  shows "(has_next it' \<longrightarrow>
           (\<forall>k < length (children_bindings it).
              \<exists>sa sb. bc (cgs ! k) (cps ! k) sa = Some (children_bindings it' ! k, sb))) \<and>
         (\<not> has_next it' \<longrightarrow>
           (\<exists>k < length (children_bindings it). \<exists>sa sb. bc (cgs ! k) (cps ! k) sa = Some ([], sb)))"
  using assms
proof (induction todo arbitrary: i it s)
  case 0
  then show ?case by auto
next
  case (Suc todo)
  let ?bss = "children_bindings it"
  from Suc.prems(2) have i: "i < length ?bss" by simp
  obtain cg where cg: "nth_opt cgs i = Some cg"
    using Suc.prems(1) by (cases "nth_opt cgs i") auto
  obtain cp where cp: "nth_opt cps i = Some cp"
    using Suc.prems(1) cg by (cases "nth_opt cps i") auto
  obtain cbs s1 where b: "bc cg cp s = Some (cbs, s1)"
    using Suc.prems(1) cg cp by (cases "bc cg cp s") auto
  from cg cp have e: "cgs ! i = cg" "cps ! i = cp" by (auto simp: nth_opt_def split: if_splits)
  with b have y: "\<exists>sa sb. bc (cgs ! i) (cps ! i) sa = Some (cbs, sb)" by blast
  let ?it1 = "it\<lparr>children_bindings := ?bss[i := cbs]\<rparr>"
  show ?case
  proof (cases "cbs = []")
    case True
    with Suc.prems(1) cg cp b have "it' = ?it1" by simp
    with Suc.prems(4) y True i show ?thesis by auto
  next
    case False
    with Suc.prems(1) cg cp b obtain s2 where
      rest: "collect_children todo bc cgs cps (i + 1) ?it1 s2 = Some (it', s')"
      by (cases "PushChild (current_binding it) (cbs ! 0) s1") (auto simp: Let_def)
    have "\<forall>k < i + 1. \<exists>sa sb. bc (cgs ! k) (cps ! k) sa = Some (children_bindings ?it1 ! k, sb)"
    proof (intro allI impI)
      fix k assume "k < i + 1"
      then consider "k < i" | "k = i" by linarith
      then show "\<exists>sa sb. bc (cgs ! k) (cps ! k) sa = Some (children_bindings ?it1 ! k, sb)"
      proof cases
        case 1
        with Suc.prems(3) show ?thesis by simp
      next
        case 2
        with y i show ?thesis by simp
      qed
    qed
    from Suc.IH [OF rest _ this] Suc.prems(2,4) show ?thesis by simp
  qed
qed

lemma ItemBindingIterator_new_yields:
  fixes s :: "'r Optimizer"
  assumes new: "ItemBindingIterator_new bc gid idx pat s = Some (it, s1)"
    and g: "nth_opt (groups s) gid = Some g" "nth_opt (group_items g) idx = Some item"
    and m: "Operator_type item = Pattern_Type pat"
      "length (GetChildren item) = length (Pattern_Children pat)"
  shows "(has_next it \<longrightarrow>
           (\<forall>k < length (GetChildren item).
              \<exists>sa sb. bc (GetChildren item ! k) (Pattern_Children pat ! k) sa
                         = Some (children_bindings it ! k, sb))) \<and>
         (\<not> has_next it \<longrightarrow>
           (\<exists>k < length (GetChildren item).
              \<exists>sa sb. bc (GetChildren item ! k) (Pattern_Children pat ! k) sa = Some ([], sb)))"
proof -
  let ?n = "length (plan_nodes s)"
  let ?s0 = "s\<lparr>plan_nodes := plan_nodes s @ [\<lparr>node_op = item, node_children = []\<rparr>]\<rparr>"
  let ?m = "length (GetChildren item)"
  let ?it1 = "\<lparr>item_group_id = gid, item_index = idx, item_pattern = pat, first = True,
                has_next = False, current_binding = ?n, children_bindings = [],
                children_bindings_pos = []\<rparr>\<lparr>children_bindings := replicate ?m [],
                children_bindings_pos := replicate ?m 0\<rparr>"
  from new g m have run:
    "collect_children ?m bc (GetChildren item) (Pattern_Children pat) 0 ?it1 ?s0 = Some (it, s1)"
    by (simp add: ItemBindingIterator_new_def make_shared_def Let_def)
  from collect_children_yields [OF run] show ?thesis by simp
qed

text \<open>
  Claim C3. Take an item whose operator type is the type of the pattern's root and whose
  number of child groups is the number of children of the pattern, and the item iterator
  that the constructor of \<^verbatim>\<open>ItemBindingIterator\<close> returns for it; \<open>children_bindings\<close>
  holds, for every child, the list of bindings that the child group's iterator yielded.
  If every child yielded at least one binding, the loop
  \<^verbatim>\<open>while (it.HasNext()) use(it.Next())\<close> ends and yields exactly as many plans as the
  product of the sizes of these lists; the children of the plans yielded, read when
  \<^verbatim>\<open>Next\<close> returns them, are all the combinations of one binding per child, in the
  order of an odometer: the plan yielded at place \<open>rank sizes pos\<close> holds binding \<open>pos ! k\<close>
  of child \<open>k\<close>, where \<open>rank\<close> reads the positions as a number in the mixed radix of the
  sizes with the rightmost position least significant. If a child yielded no binding,
  the iterator yields nothing.
\<close>

theorem item_iterator_enumerates_product:
  fixes s :: "'r Optimizer"
  assumes "ItemBindingIterator_new (bind_child fuel ExploreItem) gid idx pat s = Some (it, s1)"
    and "nth_opt (groups s) gid = Some g" "nth_opt (group_items g) idx = Some item"
    and "Operator_type item = Pattern_Type pat"
    and "length (GetChildren item) = length (Pattern_Children pat)"
  shows "length (children_bindings it) = length (GetChildren item) \<and>
    ((\<forall>b \<in> set (children_bindings it). b \<noteq> []) \<longrightarrow>
       (\<forall>k < length (GetChildren item).
          \<exists>sa sb. bind_child fuel ExploreItem (GetChildren item ! k) (Pattern_Children pat ! k) sa
                     = Some (children_bindings it ! k, sb)) \<and>
       (\<forall>n > prod_list (map length (children_bindings it)).
          map_option fst (run_item_iterator n it [] s1)
            = Some (product_lists (children_bindings it))) \<and>
       length (product_lists (children_bindings it))
         = prod_list (map length (children_bindings it)) \<and>
       (\<forall>pos. valid_pos (map length (children_bindings it)) pos \<longrightarrow>
          product_lists (children_bindings it) ! rank (map length (children_bindings it)) pos
            = map2 nth (children_bindings it) pos)) \<and>
    ((\<exists>b \<in> set (children_bindings it). b = []) \<longrightarrow>
       (\<exists>k < length (GetChildren item).
          \<exists>sa sb. bind_child fuel ExploreItem (GetChildren item ! k) (Pattern_Children pat ! k) sa
                     = Some ([], sb)) \<and>
       (\<forall>n. map_option fst (run_item_iterator (Suc n) it [] s1) = Some []))"
proof -
  let ?bss = "children_bindings it"
  note fr = bind_child_frames [of fuel ExploreItem]
  from ItemBindingIterator_new_post [OF fr assms(1-3)] assms(4,5)
  have post: "current_binding it < length (plan_nodes s1)" "first it"
    "length ?bss = length (GetChildren item)"
    "children_bindings_pos it = replicate (length ?bss) 0"
    "has_next it \<longrightarrow> (\<forall>b \<in> set ?bss. b \<noteq> []) \<and>
       node_children (plan_nodes s1 ! current_binding it) = map (\<lambda>b. b ! 0) ?bss"
    "\<not> has_next it \<longrightarrow> (\<exists>b \<in> set ?bss. b = [])"
    by auto
  from ItemBindingIterator_new_yields [OF assms]
  have ys: "has_next it \<longrightarrow>
           (\<forall>k < length (GetChildren item).
              \<exists>sa sb. bind_child fuel ExploreItem (GetChildren item ! k) (Pattern_Children pat ! k) sa
                         = Some (?bss ! k, sb))"
    "\<not> has_next it \<longrightarrow>
           (\<exists>k < length (GetChildren item).
              \<exists>sa sb. bind_child fuel ExploreItem (GetChildren item ! k) (Pattern_Children pat ! k) sa
                         = Some ([], sb))"
    by simp_all
  have full: "(\<forall>k < length (GetChildren item).
          \<exists>sa sb. bind_child fuel ExploreItem (GetChildren item ! k) (Pattern_Children pat ! k) sa
                     = Some (?bss ! k, sb)) \<and>
       (\<forall>n > prod_list (map length ?bss).
          map_option fst (run_item_iterator n it [] s1) = Some (product_lists ?bss)) \<and>
       length (product_lists ?bss) = prod_list (map length ?bss) \<and>
       (\<forall>pos. valid_pos (map length ?bss) pos \<longrightarrow>
          product_lists ?bss ! rank (map length ?bss) pos = map2 nth ?bss pos)"
    if ne: "\<forall>b \<in> set ?bss. b \<noteq> []"
  proof -
    from ne post(6) have hn: "has_next it" by blast
    with post(5) have ch: "node_children (plan_nodes s1 ! current_binding it) = map (\<lambda>b. b ! 0) ?bss"
      by simp
    have b: "\<forall>n > prod_list (map length ?bss).
        map_option fst (run_item_iterator n it [] s1) = Some (product_lists ?bss)"
    proof (intro allI impI)
      fix n assume "prod_list (map length ?bss) < n"
      from run_from_start [OF hn post(2) refl post(4) ne post(1) ch this]
      show "map_option fst (run_item_iterator n it [] s1) = Some (product_lists ?bss)" by auto
    qed
    have c: "\<forall>pos. valid_pos (map length ?bss) pos \<longrightarrow>
        product_lists ?bss ! rank (map length ?bss) pos = map2 nth ?bss pos"
      by (simp add: product_lists_nth_rank)
    from ys(1) hn b c show ?thesis by (simp add: length_product_lists_prod)
  qed
  have none: "(\<exists>k < length (GetChildren item).
          \<exists>sa sb. bind_child fuel ExploreItem (GetChildren item ! k) (Pattern_Children pat ! k) sa
                     = Some ([], sb)) \<and>
       (\<forall>n. map_option fst (run_item_iterator (Suc n) it [] s1) = Some [])"
    if e: "\<exists>b \<in> set ?bss. b = []"
  proof -
    from e post(5) have hn: "\<not> has_next it" by blast
    then have "\<forall>n. map_option fst (run_item_iterator (Suc n) it [] s1) = Some []"
      by (simp del: run_item_iterator.simps add: run_without_next)
    with ys(2) hn show ?thesis by simp
  qed
  from post(3) full none show ?thesis by blast
qed

theorem item_iterator_enumerates_product_witness:
  "(\<exists>it s1. ItemBindingIterator_new (bind_child 9 no_rules) 0 0
              (Pattern InnerJoin [Pattern Get [], Pattern Get []]) join_memo = Some (it, s1) \<and>
     children_bindings it = [[1, 2], [3, 4, 5]] \<and>
     map_option fst (run_item_iterator 7 it [] s1)
       = Some [[1, 3], [1, 4], [1, 5], [2, 3], [2, 4], [2, 5]]) \<and>
   (\<exists>it s1. ItemBindingIterator_new (bind_child 9 no_rules) 0 0
              (Pattern InnerJoin [Pattern Get [], Pattern Get []])
              (new_memo [[LogicalInnerJoin 1 2], [LogicalGet 10], []]) = Some (it, s1) \<and>
     children_bindings it = [[1], []] \<and>
     map_option fst (run_item_iterator 7 it [] s1) = Some [])"
proof -
  let ?pat = "Pattern InnerJoin [Pattern Get [], Pattern Get []]"
  let ?memo = "new_memo [[LogicalInnerJoin 1 2], [LogicalGet 10], []]"
  have "case ItemBindingIterator_new (bind_child 9 no_rules) 0 0 ?pat join_memo of
          None \<Rightarrow> False
        | Some (it, s1) \<Rightarrow> children_bindings it = [[1, 2], [3, 4, 5]]"
    by code_simp
  then obtain it s1 where
    a: "ItemBindingIterator_new (bind_child 9 no_rules) 0 0 ?pat join_memo = Some (it, s1)" and
    b: "children_bindings it = [[1, 2], [3, 4, 5]]"
    by (auto split: option.splits prod.splits)
  have g: "nth_opt (groups join_memo) 0 = Some (new_group [LogicalInnerJoin 1 2])"
    by (simp add: join_memo_def new_memo_def nth_opt_def)
  have i: "nth_opt (group_items (new_group [LogicalInnerJoin 1 2])) 0 = Some (LogicalInnerJoin 1 2)"
    by (simp add: new_group_def nth_opt_def)
  from item_iterator_enumerates_product [OF a g i] b
  have "\<forall>n > 6. map_option fst (run_item_iterator n it [] s1)
       = Some [[1, 3], [1, 4], [1, 5], [2, 3], [2, 4], [2, 5]]"
    by simp
  then have c: "map_option fst (run_item_iterator 7 it [] s1)
       = Some [[1, 3], [1, 4], [1, 5], [2, 3], [2, 4], [2, 5]]"
    by simp
  have "case ItemBindingIterator_new (bind_child 9 no_rules) 0 0 ?pat ?memo of
          None \<Rightarrow> False
        | Some (it, s1) \<Rightarrow> children_bindings it = [[1], []]"
    by code_simp
  then obtain it' s1' where
    a': "ItemBindingIterator_new (bind_child 9 no_rules) 0 0 ?pat ?memo = Some (it', s1')" and
    b': "children_bindings it' = [[1], []]"
    by (auto split: option.splits prod.splits)
  have g': "nth_opt (groups ?memo) 0 = Some (new_group [LogicalInnerJoin 1 2])"
    by (simp add: new_memo_def nth_opt_def)
  from item_iterator_enumerates_product [OF a' g' i] b'
  have "\<forall>n. map_option fst (run_item_iterator (Suc n) it' [] s1') = Some []"
    by simp
  then have "map_option fst (run_item_iterator (Suc 6) it' [] s1') = Some []" by (rule spec)
  then have c': "map_option fst (run_item_iterator 7 it' [] s1') = Some []"
    by (simp only: eval_nat_numeral)
  have "\<exists>it s1. ItemBindingIterator_new (bind_child 9 no_rules) 0 0 ?pat join_memo = Some (it, s1) \<and>
     children_bindings it = [[1, 2], [3, 4, 5]] \<and>
     map_option fst (run_item_iterator 7 it [] s1)
       = Some [[1, 3], [1, 4], [1, 5], [2, 3], [2, 4], [2, 5]]"
    using a b c by (intro exI [of _ it] exI [of _ s1] conjI) simp_all
  moreover have "\<exists>it s1. ItemBindingIterator_new (bind_child 9 no_rules) 0 0 ?pat ?memo
       = Some (it, s1) \<and> children_bindings it = [[1], []] \<and>
     map_option fst (run_item_iterator 7 it [] s1) = Some []"
    using a' b' c' by (intro exI [of _ it'] exI [of _ s1'] conjI) simp_all
  ultimately show ?thesis by (rule conjI)
qed

text \<open>
  Scenario S5 of the spec as it is written, with the pattern \<open>InnerJoin(Leaf, Leaf)\<close>: a
  \<open>Leaf\<close> pattern binds a group once, whatever its items, so each child list has one
  binding and the iterator yields one plan. With the pattern \<open>InnerJoin(Get, Get)\<close> the
  child lists have sizes 2 and 3 and the six plans come in odometer order.
\<close>

lemma join_scenario_plans:
  "map_option fst (bind_group 9 no_rules 0 (Pattern InnerJoin [Pattern Leaf [], Pattern Leaf []])
     join_memo)
     = Some [Plan (LogicalInnerJoin 1 2) [Plan (LeafOperator 1) [], Plan (LeafOperator 2) []]] \<and>
   map_option fst (bind_group 12 no_rules 0 (Pattern InnerJoin [Pattern Get [], Pattern Get []])
     join_memo)
     = Some [Plan (LogicalInnerJoin 1 2) [Plan (LogicalGet 10) [], Plan (LogicalGet 20) []],
             Plan (LogicalInnerJoin 1 2) [Plan (LogicalGet 10) [], Plan (LogicalGet 21) []],
             Plan (LogicalInnerJoin 1 2) [Plan (LogicalGet 10) [], Plan (LogicalGet 22) []],
             Plan (LogicalInnerJoin 1 2) [Plan (LogicalGet 11) [], Plan (LogicalGet 20) []],
             Plan (LogicalInnerJoin 1 2) [Plan (LogicalGet 11) [], Plan (LogicalGet 21) []],
             Plan (LogicalInnerJoin 1 2) [Plan (LogicalGet 11) [], Plan (LogicalGet 22) []]]"
  by code_simp

end
